theory Spec2Isabelle
  imports Main "HOL-Library.AList"
begin

section \<open>Values stored in documents\<close>

text \<open>
  The viewer endpoint of \<^verbatim>\<open>grosbeak/routers/api.py\<close> reads MongoDB documents, which
  pymongo hands over as Python dictionaries. A dictionary keeps its keys in insertion
  order, so it is modelled as an association list: \<open>map_of\<close> is the lookup,
  \<open>AList.update\<close> is item assignment (an existing key keeps its place, a new key goes to
  the end) and \<open>AList.delete\<close> is \<^verbatim>\<open>pop\<close>.

  A float is kept symbolically: the only operations the code applies to one are the
  truth test and \<^verbatim>\<open>math.isnan\<close>, so a finite float is a mantissa and an exponent, and
  the three special values are constructors of their own. Integers of a BSON document
  are at most 64 bits wide, so \<^verbatim>\<open>math.isnan\<close> never overflows converting one.
  Besides the JSON types a document holds ObjectIds (its \<^verbatim>\<open>_id\<close>, as a rule); an ObjectId
  is kept as its hexadecimal string, which is what \<^verbatim>\<open>str\<close> gives.
\<close>

datatype pyfloat = Finite int int | NaN | PosInf | NegInf

datatype pyval =
    VNone
  | VBool bool
  | VInt int
  | VFloat pyfloat
  | VStr string
  | VList "pyval list"
  | VDict "(string \<times> pyval) list"
  | VObjectId string

type_synonym document = "(string \<times> pyval) list"

datatype error = KeyError string | IndexError | AttributeError | TypeError

text \<open>The truth value Python gives a value in \<^verbatim>\<open>if v:\<close>.\<close>

fun truthy :: "pyval \<Rightarrow> bool" where
  "truthy VNone = False"
| "truthy (VBool b) = b"
| "truthy (VInt i) = (i \<noteq> 0)"
| "truthy (VFloat (Finite m e)) = (m \<noteq> 0)"
| "truthy (VFloat f) = True"
| "truthy (VStr s) = (s \<noteq> [])"
| "truthy (VList xs) = (xs \<noteq> [])"
| "truthy (VDict kvs) = (kvs \<noteq> [])"
| "truthy (VObjectId h) = True"

text \<open>\<^verbatim>\<open>isinstance(v, (float, int, str, bool, type(None)))\<close>\<close>

fun is_primitive :: "pyval \<Rightarrow> bool" where
  "is_primitive VNone = True"
| "is_primitive (VBool b) = True"
| "is_primitive (VInt i) = True"
| "is_primitive (VFloat f) = True"
| "is_primitive (VStr s) = True"
| "is_primitive (VList xs) = False"
| "is_primitive (VDict kvs) = False"
| "is_primitive (VObjectId h) = False"

text \<open>\<^verbatim>\<open>isinstance(v, numbers.Number)\<close>: \<^verbatim>\<open>bool\<close> is a subclass of \<^verbatim>\<open>int\<close>.\<close>

fun is_number :: "pyval \<Rightarrow> bool" where
  "is_number (VBool b) = True"
| "is_number (VInt i) = True"
| "is_number (VFloat f) = True"
| "is_number v = False"

text \<open>\<^verbatim>\<open>math.isnan\<close>, called on numbers only.\<close>

fun math_isnan :: "pyval \<Rightarrow> bool" where
  "math_isnan (VFloat NaN) = True"
| "math_isnan v = False"

subsection \<open>The builtin \<^verbatim>\<open>str\<close>\<close>

definition digit_chars :: string where
  "digit_chars = ''0123456789''"

fun str_nat :: "nat \<Rightarrow> string" where
  "str_nat n = (if n < 10 then [digit_chars ! n]
                else str_nat (n div 10) @ [digit_chars ! (n mod 10)])"

declare str_nat.simps [simp del]

definition str_int :: "int \<Rightarrow> string" where
  "str_int i = (if i < 0 then CHR ''-'' # str_nat (nat (- i)) else str_nat (nat i))"

text \<open>
  \<^verbatim>\<open>str\<close> of \<^verbatim>\<open>None\<close>, a boolean, an integer, a string and an ObjectId is written out.
  The rendering of floats, lists and dictionaries (Python's \<^verbatim>\<open>repr\<close> rules) is not
  part of the repository: it is the parameter \<open>rp\<close>.
\<close>

fun str_py :: "(pyval \<Rightarrow> string) \<Rightarrow> pyval \<Rightarrow> string" where
  "str_py rp VNone = ''None''"
| "str_py rp (VBool b) = (if b then ''True'' else ''False'')"
| "str_py rp (VInt i) = str_int i"
| "str_py rp (VStr s) = s"
| "str_py rp (VObjectId h) = h"
| "str_py rp v = rp v"

section \<open>The registry of \<^verbatim>\<open>grosbeak/db.py\<close>\<close>

datatype DocumentTypes = Team | Tim | Aim | Alliance | Auto_paths

fun type_name :: "DocumentTypes \<Rightarrow> string" where
  "type_name Team = ''team''"
| "type_name Tim = ''tim''"
| "type_name Aim = ''aim''"
| "type_name Alliance = ''alliance''"
| "type_name Auto_paths = ''auto_paths''"

definition COLLECTIONS :: "(string \<times> DocumentTypes) list" where
  "COLLECTIONS =
    [(''raw_obj_pit'', Team),
     (''tba_tim'', Tim),
     (''obj_tim'', Tim),
     (''obj_team'', Team),
     (''subj_team'', Team),
     (''predicted_aim'', Aim),
     (''predicted_team'', Team),
     (''tba_team'', Team),
     (''pickability'', Team),
     (''picklist'', Team),
     (''predicted_alliances'', Alliance),
     (''auto_paths'', Auto_paths),
     (''subj_tim'', Tim)]"

definition COLLECTION_KEYS :: "(DocumentTypes \<times> string list) list" where
  "COLLECTION_KEYS =
    [(Team, [''team_number'']),
     (Tim, [''match_number'', ''team_number'']),
     (Aim, [''match_number'', ''alliance_color_is_red'']),
     (Alliance, [''alliance_num'']),
     (Auto_paths, [''team_number'', ''path_number''])]"

section \<open>Key extraction\<close>

text \<open>
  The loop of \<^verbatim>\<open>make_key\<close>: \<open>keys\<close> is the list built so far, \<open>document\<close> the
  dictionary being emptied of its key fields. \<^verbatim>\<open>document[header]\<close> raises
  \<^verbatim>\<open>KeyError(header)\<close> when the field is absent.
\<close>

fun make_key_loop ::
  "(pyval \<Rightarrow> string) \<Rightarrow> string list \<Rightarrow> document \<Rightarrow> string list \<Rightarrow> error + (string list \<times> document)"
where
  "make_key_loop rp [] document keys = Inr (keys, document)"
| "make_key_loop rp (header # headers) document keys =
    (if header = ''alliance_color_is_red'' then
       (case map_of document ''alliance_color_is_red'' of
          None \<Rightarrow> Inl (KeyError ''alliance_color_is_red'')
        | Some alliance_color_is_red \<Rightarrow>
            make_key_loop rp headers (AList.delete header document)
              (keys @ [if truthy alliance_color_is_red then ''red'' else ''blue'']))
     else
       (case map_of document header of
          None \<Rightarrow> Inl (KeyError header)
        | Some v \<Rightarrow>
            make_key_loop rp headers (AList.delete header document)
              (keys @ [str_py rp v])))"

definition make_key ::
  "(pyval \<Rightarrow> string) \<Rightarrow> DocumentTypes \<Rightarrow> document \<Rightarrow> error + (string list \<times> document)"
where
  "make_key rp collection_type document =
    (case map_of COLLECTION_KEYS collection_type of
       None \<Rightarrow> Inl (KeyError (type_name collection_type))
     | Some headers \<Rightarrow> make_key_loop rp headers document [])"

section \<open>Nested dictionaries addressed by a path\<close>

text \<open>\<^verbatim>\<open>d.get(key)\<close>: only a dictionary has the method.\<close>

fun dict_get :: "pyval \<Rightarrow> string \<Rightarrow> error + pyval" where
  "dict_get (VDict kvs) key = Inr (case map_of kvs key of None \<Rightarrow> VNone | Some v \<Rightarrow> v)"
| "dict_get d key = Inl AttributeError"

text \<open>
  \<^verbatim>\<open>reduce(lambda d, key: d.get(key) if d else None, path, dictionary)\<close>: a left fold,
  whose step tests the truth value of \<open>d\<close>, so an empty dictionary on the way gives
  \<^verbatim>\<open>None\<close> as a missing key does.
\<close>

fun get_by_path :: "pyval \<Rightarrow> string list \<Rightarrow> error + pyval" where
  "get_by_path d [] = Inr d"
| "get_by_path d (key # path) =
    (if truthy d then
       (case dict_get d key of Inl e \<Rightarrow> Inl e | Inr d' \<Rightarrow> get_by_path d' path)
     else get_by_path VNone path)"

text \<open>
  \<^verbatim>\<open>reduce(lambda d, key: d.setdefault(key, {}), path[:-1], dictionary)[path[-1]] = value\<close>.
  The dictionaries are mutated in place; the model returns the dictionary after the
  assignment. An empty path has no last element.
\<close>

fun set_by_path :: "pyval \<Rightarrow> string list \<Rightarrow> pyval \<Rightarrow> error + pyval" where
  "set_by_path d [] v = Inl IndexError"
| "set_by_path d [key] v =
    (case d of VDict kvs \<Rightarrow> Inr (VDict (AList.update key v kvs)) | _ \<Rightarrow> Inl TypeError)"
| "set_by_path d (key # path) v =
    (case d of
       VDict kvs \<Rightarrow>
         (case set_by_path (case map_of kvs key of None \<Rightarrow> VDict [] | Some c \<Rightarrow> c) path v of
            Inl e \<Rightarrow> Inl e
          | Inr c' \<Rightarrow> Inr (VDict (AList.update key c' kvs)))
     | _ \<Rightarrow> Inl AttributeError)"

section \<open>Sanitising a document\<close>

definition serialize_viewer_document :: "document \<Rightarrow> document" where
  "serialize_viewer_document document = AList.delete ''_id'' document"

record query =
  use_strings :: bool
  ignored_collections :: "string list option"
  ignored_to_string_datapoints :: "string list option"
  ignored_to_string_collections :: "string list option"

text \<open>\<^verbatim>\<open>xs is not None and x in xs\<close>\<close>

fun listed :: "string \<Rightarrow> string list option \<Rightarrow> bool" where
  "listed x None = False"
| "listed x (Some xs) = (x \<in> set xs)"

text \<open>The body of the loop over \<^verbatim>\<open>sanitized.items()\<close>: the new value of field \<open>k\<close>.\<close>

definition to_string_value :: "(pyval \<Rightarrow> string) \<Rightarrow> query \<Rightarrow> string \<Rightarrow> pyval \<Rightarrow> pyval" where
  "to_string_value rp q k v =
    (if listed k (ignored_to_string_datapoints q) then v
     else if \<not> is_primitive v then VStr (str_py rp v)
     else v)"

definition to_string_pass :: "(pyval \<Rightarrow> string) \<Rightarrow> query \<Rightarrow> string \<Rightarrow> document \<Rightarrow> document" where
  "to_string_pass rp q collection sanitized =
    (if use_strings q \<and> \<not> listed collection (ignored_to_string_collections q)
     then AList.map_ran (to_string_value rp q) sanitized
     else sanitized)"

definition nan_value :: "pyval \<Rightarrow> pyval" where
  "nan_value v = (if is_number v \<and> math_isnan v then VNone else v)"

definition nan_pass :: "document \<Rightarrow> document" where
  "nan_pass sanitized = AList.map_ran (\<lambda>k. nan_value) sanitized"

definition sanitize :: "(pyval \<Rightarrow> string) \<Rightarrow> query \<Rightarrow> string \<Rightarrow> document \<Rightarrow> document" where
  "sanitize rp q collection doc =
    nan_pass (to_string_pass rp q collection (serialize_viewer_document doc))"

section \<open>The aggregation\<close>

text \<open>\<^verbatim>\<open>common_doc.update(sanitized)\<close>\<close>

fun dict_update :: "pyval \<Rightarrow> document \<Rightarrow> error + pyval" where
  "dict_update (VDict kvs) sanitized = Inr (VDict (AList.updates (map fst sanitized) (map snd sanitized) kvs))"
| "dict_update d sanitized = Inl AttributeError"

type_synonym viewer_data = "(DocumentTypes \<times> pyval) list"

text \<open>
  The body of the loop over the documents of one collection. \<^verbatim>\<open>common_doc\<close> is a
  reference to the dictionary that sits at path \<open>key\<close> of \<^verbatim>\<open>data[collection_type]\<close>
  (found there by \<^verbatim>\<open>get_by_path\<close>, or put there by \<^verbatim>\<open>set_by_path\<close>), and every
  dictionary of the tree is created by this function and referenced from one place only,
  so the in-place \<^verbatim>\<open>update\<close> is the assignment of the updated dictionary at that path.
\<close>

definition process_document ::
  "(pyval \<Rightarrow> string) \<Rightarrow> query \<Rightarrow> string \<Rightarrow> DocumentTypes \<Rightarrow> viewer_data \<Rightarrow> document \<Rightarrow> error + viewer_data"
where
  "process_document rp q collection collection_type data doc =
    (case make_key rp collection_type doc of
       Inl e \<Rightarrow> Inl e
     | Inr (key, doc') \<Rightarrow>
        (case map_of data collection_type of
           None \<Rightarrow> Inl (KeyError (type_name collection_type))
         | Some tree \<Rightarrow>
            (case get_by_path tree key of
               Inl e \<Rightarrow> Inl e
             | Inr found \<Rightarrow>
                (case (if found = VNone then set_by_path tree key (VDict []) else Inr tree) of
                   Inl e \<Rightarrow> Inl e
                 | Inr tree' \<Rightarrow>
                    (case dict_update (if found = VNone then VDict [] else found)
                            (sanitize rp q collection doc') of
                       Inl e \<Rightarrow> Inl e
                     | Inr common_doc \<Rightarrow>
                        (case set_by_path tree' key common_doc of
                           Inl e \<Rightarrow> Inl e
                         | Inr tree'' \<Rightarrow> Inr (AList.update collection_type tree'' data)))))))"

fun process_documents ::
  "(pyval \<Rightarrow> string) \<Rightarrow> query \<Rightarrow> string \<Rightarrow> DocumentTypes \<Rightarrow> viewer_data \<Rightarrow> document list \<Rightarrow> error + viewer_data"
where
  "process_documents rp q collection collection_type data [] = Inr data"
| "process_documents rp q collection collection_type data (doc # documents) =
    (case process_document rp q collection collection_type data doc of
       Inl e \<Rightarrow> Inl e
     | Inr data' \<Rightarrow> process_documents rp q collection collection_type data' documents)"

text \<open>
  The loop over \<^verbatim>\<open>COLLECTIONS.items()\<close>; \<open>db\<close> gives the documents that
  \<^verbatim>\<open>db[collection].find()\<close> yields, in order (none for a collection that does not exist).
\<close>

fun process_collections ::
  "(pyval \<Rightarrow> string) \<Rightarrow> query \<Rightarrow> (string \<Rightarrow> document list) \<Rightarrow> viewer_data \<Rightarrow> (string \<times> DocumentTypes) list \<Rightarrow> error + viewer_data"
where
  "process_collections rp q db data [] = Inr data"
| "process_collections rp q db data ((collection, collection_type) # rest) =
    (if listed collection (ignored_collections q) then process_collections rp q db data rest
     else
       (case process_documents rp q collection collection_type data (db collection) of
          Inl e \<Rightarrow> Inl e
        | Inr data' \<Rightarrow> process_collections rp q db data' rest))"

definition get_viewer_data ::
  "(pyval \<Rightarrow> string) \<Rightarrow> query \<Rightarrow> (string \<Rightarrow> document list) \<Rightarrow> error + viewer_data"
where
  "get_viewer_data rp q db =
    process_collections rp q db (map (\<lambda>(collection_type, headers). (collection_type, VDict [])) COLLECTION_KEYS) COLLECTIONS"

section \<open>Reading the result\<close>

text \<open>
  The definitions of this section are not code of the repository: they say how a
  property of the result is read off, and name the loop invariant.

  \<open>lookup_path d path\<close> is plain subscripting, \<^verbatim>\<open>d[k1][k2]...\<close>, with \<open>None\<close> where
  Python raises. \<open>leaf data t path\<close> is \<^verbatim>\<open>data[t][k1]...[kn]\<close>.
\<close>

fun lookup_path :: "pyval \<Rightarrow> string list \<Rightarrow> pyval option" where
  "lookup_path d [] = Some d"
| "lookup_path (VDict kvs) (key # path) =
    (case map_of kvs key of None \<Rightarrow> None | Some c \<Rightarrow> lookup_path c path)"
| "lookup_path d (key # path) = None"

definition leaf :: "viewer_data \<Rightarrow> DocumentTypes \<Rightarrow> string list \<Rightarrow> pyval option" where
  "leaf data t path = (case map_of data t of None \<Rightarrow> None | Some tree \<Rightarrow> lookup_path tree path)"

definition leaf_fields :: "viewer_data \<Rightarrow> DocumentTypes \<Rightarrow> string list \<Rightarrow> document" where
  "leaf_fields data t path = (case leaf data t path of Some (VDict kvs) \<Rightarrow> kvs | _ \<Rightarrow> [])"

text \<open>The key fields of a document type, \<^verbatim>\<open>COLLECTION_KEYS[t]\<close>.\<close>

definition key_fields :: "DocumentTypes \<Rightarrow> string list" where
  "key_fields t = (case map_of COLLECTION_KEYS t of None \<Rightarrow> [] | Some headers \<Rightarrow> headers)"

text \<open>
  A tree of depth \<open>n\<close>: dictionaries nested \<open>n\<close> levels deep whose leaves are
  dictionaries. The tree of type \<open>t\<close> has the depth \<open>length (key_fields t)\<close>
  throughout the loop.
\<close>

fun is_dict :: "pyval \<Rightarrow> bool" where
  "is_dict (VDict kvs) = True"
| "is_dict v = False"

fun wf_tree :: "nat \<Rightarrow> pyval \<Rightarrow> bool" where
  "wf_tree 0 v = is_dict v"
| "wf_tree (Suc n) v = (case v of VDict kvs \<Rightarrow> (\<forall>c \<in> snd ` set kvs. wf_tree n c) | _ \<Rightarrow> False)"

definition data_inv :: "viewer_data \<Rightarrow> bool" where
  "data_inv data \<longleftrightarrow>
     map fst data = map fst COLLECTION_KEYS \<and>
     (\<forall>(t, tree) \<in> set data. wf_tree (length (key_fields t)) tree)"

text \<open>What \<^verbatim>\<open>make_key\<close> leaves of a document: the fields other than \<open>hs\<close>.\<close>

definition restrict_out :: "string list \<Rightarrow> document \<Rightarrow> document" where
  "restrict_out hs doc = filter (\<lambda>(k, v). k \<notin> set hs) doc"

text \<open>
  The records the two nested loops visit, in the order they visit them: the collections
  in the order of \<^verbatim>\<open>COLLECTIONS\<close>, without the ignored ones, each with its documents in
  the order the database yields them. \<open>process_items\<close> is the loop body run over such a
  sequence; \<open>get_viewer_data\<close> is shown below to be \<open>process_items\<close> on the
  \<open>work_items\<close> of \<open>COLLECTIONS\<close>.
\<close>

type_synonym work_item = "string \<times> DocumentTypes \<times> document"

definition work_items ::
  "query \<Rightarrow> (string \<Rightarrow> document list) \<Rightarrow> (string \<times> DocumentTypes) list \<Rightarrow> work_item list"
where
  "work_items q db colls =
     concat (map (\<lambda>(c, t). if listed c (ignored_collections q) then []
                             else map (\<lambda>d. (c, t, d)) (db c)) colls)"

fun process_items ::
  "(pyval \<Rightarrow> string) \<Rightarrow> query \<Rightarrow> viewer_data \<Rightarrow> work_item list \<Rightarrow> error + viewer_data"
where
  "process_items rp q data [] = Inr data"
| "process_items rp q data ((c, t, d) # items) =
    (case process_document rp q c t data d of
       Inl e \<Rightarrow> Inl e
     | Inr data' \<Rightarrow> process_items rp q data' items)"

text \<open>
  The value that the two passes over a sanitised document give field \<open>k\<close> of a document
  of collection \<open>c\<close> whose stored value is \<open>v\<close>.
\<close>

definition sanitize_value :: "(pyval \<Rightarrow> string) \<Rightarrow> query \<Rightarrow> string \<Rightarrow> string \<Rightarrow> pyval \<Rightarrow> pyval" where
  "sanitize_value rp q c k v =
     nan_value (if use_strings q \<and> \<not> listed c (ignored_to_string_collections q)
                then to_string_value rp q k v else v)"

text \<open>
  A record sets field \<open>X\<close> at the path \<open>key\<close> of type \<open>t\<close>: it is a record of that type,
  its key is \<open>key\<close>, and it has the field.
\<close>

definition writes ::
  "(pyval \<Rightarrow> string) \<Rightarrow> DocumentTypes \<Rightarrow> string list \<Rightarrow> string \<Rightarrow> work_item \<Rightarrow> bool"
where
  "writes rp t key X item =
     (case item of (c, t', d) \<Rightarrow>
        t' = t \<and> map_of d X \<noteq> None \<and>
        (case make_key rp t' d of Inl e \<Rightarrow> False | Inr (key', body) \<Rightarrow> key' = key))"

text \<open>
  No record visited after a given one sets field \<open>X\<close> at the path \<open>key\<close> of type \<open>t\<close>:
  neither the records \<open>after\<close> it in its own collection, which is number \<open>j\<close> of
  \<^verbatim>\<open>COLLECTIONS\<close>, nor a record of a collection further down \<^verbatim>\<open>COLLECTIONS\<close>.
\<close>

definition nothing_later_sets ::
  "(pyval \<Rightarrow> string) \<Rightarrow> query \<Rightarrow> (string \<Rightarrow> document list) \<Rightarrow> nat \<Rightarrow> document list \<Rightarrow>
     DocumentTypes \<Rightarrow> string list \<Rightarrow> string \<Rightarrow> bool"
where
  "nothing_later_sets rp q db j after t key X \<longleftrightarrow>
     (\<forall>d \<in> set after. \<not> writes rp t key X (fst (COLLECTIONS ! j), t, d)) \<and>
     (\<forall>item \<in> set (work_items q db (drop (Suc j) COLLECTIONS)). \<not> writes rp t key X item)"

section \<open>Example inputs\<close>

text \<open>A stand-in for the rendering of floats and containers, for the examples below.\<close>

definition example_repr :: "pyval \<Rightarrow> string" where
  "example_repr v = ''<object>''"

text \<open>The default query, and one that asks for strings with both exclusion lists set.\<close>

definition example_query :: query where
  "example_query = \<lparr>use_strings = False, ignored_collections = None,
     ignored_to_string_datapoints = None, ignored_to_string_collections = None\<rparr>"

definition strings_query :: query where
  "strings_query = \<lparr>use_strings = True, ignored_collections = None,
     ignored_to_string_datapoints = Some [''raw''], ignored_to_string_collections = Some [''picklist'']\<rparr>"

text \<open>
  The scenario of the specification: \<^verbatim>\<open>obj_team\<close> yields
  \<^verbatim>\<open>{team_number: 254, opr: 10}\<close> and \<^verbatim>\<open>tba_team\<close> yields
  \<^verbatim>\<open>{team_number: 254, name: "Cheesy"}\<close>; every other collection is empty.
\<close>

definition example_db :: "string \<Rightarrow> document list" where
  "example_db c =
    (if c = ''obj_team'' then
       [[(''_id'', VObjectId ''a1''), (''team_number'', VInt 254), (''opr'', VInt 10)]]
     else if c = ''tba_team'' then
       [[(''_id'', VObjectId ''b2''), (''team_number'', VInt 254), (''name'', VStr ''Cheesy'')]]
     else [])"

definition example_view :: viewer_data where
  "example_view =
    [(Team, VDict [(''254'', VDict [(''opr'', VInt 10), (''name'', VStr ''Cheesy'')])]),
     (Tim, VDict []), (Aim, VDict []), (Alliance, VDict []), (Auto_paths, VDict [])]"

text \<open>Two collections that disagree on a field of team 254.\<close>

definition precedence_db :: "string \<Rightarrow> document list" where
  "precedence_db c =
    (if c = ''obj_team'' then
       [[(''_id'', VObjectId ''a1''), (''team_number'', VInt 254), (''opr'', VInt 10)]]
     else if c = ''tba_team'' then
       [[(''_id'', VObjectId ''b2''), (''team_number'', VInt 254), (''opr'', VInt 12)]]
     else [])"

definition precedence_view :: viewer_data where
  "precedence_view =
    [(Team, VDict [(''254'', VDict [(''opr'', VInt 12)])]),
     (Tim, VDict []), (Aim, VDict []), (Alliance, VDict []), (Auto_paths, VDict [])]"

text \<open>A record with a NaN field, and one with an infinite field.\<close>

definition nan_db :: "string \<Rightarrow> document list" where
  "nan_db c =
    (if c = ''obj_team'' then
       [[(''_id'', VObjectId ''a1''), (''team_number'', VInt 254), (''opr'', VFloat NaN)]]
     else [])"

definition nan_view :: viewer_data where
  "nan_view =
    [(Team, VDict [(''254'', VDict [(''opr'', VNone)])]),
     (Tim, VDict []), (Aim, VDict []), (Alliance, VDict []), (Auto_paths, VDict [])]"

definition infinity_db :: "string \<Rightarrow> document list" where
  "infinity_db c =
    (if c = ''obj_team'' then
       [[(''_id'', VObjectId ''a1''), (''team_number'', VInt 254), (''opr'', VFloat PosInf)]]
     else [])"

definition infinity_view :: viewer_data where
  "infinity_view =
    [(Team, VDict [(''254'', VDict [(''opr'', VFloat PosInf)])]),
     (Tim, VDict []), (Aim, VDict []), (Alliance, VDict []), (Auto_paths, VDict [])]"

text \<open>
  A team record without its team number, and an auto path record without its team
  number.
\<close>

definition missing_team_db :: "string \<Rightarrow> document list" where
  "missing_team_db c =
    (if c = ''obj_team'' then [[(''_id'', VObjectId ''a1''), (''opr'', VInt 10)]] else [])"

definition missing_path_db :: "string \<Rightarrow> document list" where
  "missing_path_db c =
    (if c = ''auto_paths'' then [[(''_id'', VObjectId ''b2''), (''path_number'', VInt 1)]] else [])"

text \<open>
  A query that ignores \<^verbatim>\<open>tba_team\<close>, and the scenario's database without that
  collection.
\<close>

definition ignoring_query :: query where
  "ignoring_query = \<lparr>use_strings = False, ignored_collections = Some [''tba_team''],
     ignored_to_string_datapoints = None, ignored_to_string_collections = None\<rparr>"

definition obj_only_db :: "string \<Rightarrow> document list" where
  "obj_only_db c =
    (if c = ''obj_team'' then
       [[(''_id'', VObjectId ''a1''), (''team_number'', VInt 254), (''opr'', VInt 10)]]
     else [])"

definition obj_only_view :: viewer_data where
  "obj_only_view =
    [(Team, VDict [(''254'', VDict [(''opr'', VInt 10)])]),
     (Tim, VDict []), (Aim, VDict []), (Alliance, VDict []), (Auto_paths, VDict [])]"

text \<open>
  Three collections that set the same field of team 254: \<^verbatim>\<open>obj_team\<close>,
  \<^verbatim>\<open>tba_team\<close> and, last in \<^verbatim>\<open>COLLECTIONS\<close>, \<^verbatim>\<open>picklist\<close>. And two collections of
  which the later one holds NaN in the field.
\<close>

definition three_db :: "string \<Rightarrow> document list" where
  "three_db c =
    (if c = ''obj_team'' then
       [[(''_id'', VObjectId ''a1''), (''team_number'', VInt 254), (''opr'', VInt 10)]]
     else if c = ''tba_team'' then
       [[(''_id'', VObjectId ''b2''), (''team_number'', VInt 254), (''opr'', VInt 12)]]
     else if c = ''picklist'' then
       [[(''_id'', VObjectId ''c3''), (''team_number'', VInt 254), (''opr'', VInt 99)]]
     else [])"

definition three_view :: viewer_data where
  "three_view =
    [(Team, VDict [(''254'', VDict [(''opr'', VInt 99)])]),
     (Tim, VDict []), (Aim, VDict []), (Alliance, VDict []), (Auto_paths, VDict [])]"

definition nan_later_db :: "string \<Rightarrow> document list" where
  "nan_later_db c =
    (if c = ''obj_team'' then
       [[(''_id'', VObjectId ''a1''), (''team_number'', VInt 254), (''opr'', VInt 10)]]
     else if c = ''tba_team'' then
       [[(''_id'', VObjectId ''b2''), (''team_number'', VInt 254), (''opr'', VFloat NaN)]]
     else [])"

definition nan_later_view :: viewer_data where
  "nan_later_view =
    [(Team, VDict [(''254'', VDict [(''opr'', VNone)])]),
     (Tim, VDict []), (Aim, VDict []), (Alliance, VDict []), (Auto_paths, VDict [])]"

text \<open>
  The scenario of the specification with a third record, of \<^verbatim>\<open>picklist\<close>, that sets
  \<^verbatim>\<open>opr\<close> again; and the scenario with NaN as the \<^verbatim>\<open>opr\<close> of \<^verbatim>\<open>obj_team\<close>.
\<close>

definition union_three_db :: "string \<Rightarrow> document list" where
  "union_three_db c =
    (if c = ''obj_team'' then
       [[(''_id'', VObjectId ''a1''), (''team_number'', VInt 254), (''opr'', VInt 10)]]
     else if c = ''tba_team'' then
       [[(''_id'', VObjectId ''b2''), (''team_number'', VInt 254), (''name'', VStr ''Cheesy'')]]
     else if c = ''picklist'' then
       [[(''_id'', VObjectId ''c3''), (''team_number'', VInt 254), (''opr'', VInt 99)]]
     else [])"

definition union_three_view :: viewer_data where
  "union_three_view =
    [(Team, VDict [(''254'', VDict [(''opr'', VInt 99), (''name'', VStr ''Cheesy'')])]),
     (Tim, VDict []), (Aim, VDict []), (Alliance, VDict []), (Auto_paths, VDict [])]"

definition nan_earlier_db :: "string \<Rightarrow> document list" where
  "nan_earlier_db c =
    (if c = ''obj_team'' then
       [[(''_id'', VObjectId ''a1''), (''team_number'', VInt 254), (''opr'', VFloat NaN)]]
     else if c = ''tba_team'' then
       [[(''_id'', VObjectId ''b2''), (''team_number'', VInt 254), (''name'', VStr ''Cheesy'')]]
     else [])"

definition nan_earlier_view :: viewer_data where
  "nan_earlier_view =
    [(Team, VDict [(''254'', VDict [(''opr'', VNone), (''name'', VStr ''Cheesy'')])]),
     (Tim, VDict []), (Aim, VDict []), (Alliance, VDict []), (Auto_paths, VDict [])]"

section \<open>Lemmas\<close>

lemma is_dict_iff: "is_dict v \<longleftrightarrow> (\<exists>kvs. v = VDict kvs)"
  by (cases v) auto

lemma wf_tree_is_dict: "wf_tree n v \<Longrightarrow> is_dict v"
  by (cases n; cases v) auto

lemma wf_tree_empty [simp]: "wf_tree n (VDict [])"
  by (cases n) auto

lemma get_by_path_None: "get_by_path VNone path = Inr VNone"
  by (induction path) auto

lemma wf_tree_child:
  "wf_tree (Suc n) (VDict kvs) \<Longrightarrow> map_of kvs k = Some c \<Longrightarrow> wf_tree n c"
  by (auto dest!: map_of_SomeD intro: rev_image_eqI)

lemma lookup_path_wf:
  "wf_tree (length path) d \<Longrightarrow> lookup_path d path = Some v \<Longrightarrow> is_dict v"
proof (induction path arbitrary: d)
  case Nil
  then show ?case by simp
next
  case (Cons key path)
  from Cons.prems(1) obtain kvs where d: "d = VDict kvs"
    using wf_tree_is_dict is_dict_iff by blast
  with Cons.prems(2) obtain c where c: "map_of kvs key = Some c" "lookup_path c path = Some v"
    by (auto split: option.splits)
  from Cons.prems(1) d c(1) have "wf_tree (length path) c"
    using wf_tree_child by simp
  then show ?case using c(2) by (rule Cons.IH)
qed

lemma get_by_path_wf:
  "wf_tree (length path) d \<Longrightarrow>
   get_by_path d path = Inr (case lookup_path d path of None \<Rightarrow> VNone | Some v \<Rightarrow> v)"
proof (induction path arbitrary: d)
  case Nil
  then show ?case by simp
next
  case (Cons key path)
  from Cons.prems obtain kvs where d: "d = VDict kvs"
    using wf_tree_is_dict is_dict_iff by blast
  show ?case
  proof (cases "map_of kvs key")
    case None
    then show ?thesis using d by (simp add: get_by_path_None)
  next
    case (Some c)
    then have ne: "kvs \<noteq> []" by auto
    from Cons.prems d Some have "wf_tree (length path) c"
      using wf_tree_child by simp
    from Cons.IH [OF this] show ?thesis using d Some ne by simp
  qed
qed

lemma wf_tree_update:
  "wf_tree (Suc n) (VDict kvs) \<Longrightarrow> wf_tree n c \<Longrightarrow> wf_tree (Suc n) (VDict (AList.update k c kvs))"
  by (induction kvs) auto

lemma set_by_path_wf:
  "wf_tree (length path) d \<Longrightarrow> path \<noteq> [] \<Longrightarrow> is_dict v \<Longrightarrow>
   \<exists>d'. set_by_path d path v = Inr d' \<and> wf_tree (length path) d' \<and>
     (\<forall>p. length p = length path \<longrightarrow>
        lookup_path d' p = (if p = path then Some v else lookup_path d p))"
proof (induction d path v rule: set_by_path.induct)
  case (1 d v)
  then show ?case by simp
next
  case (2 d key v)
  from "2.prems" obtain kvs where d: "d = VDict kvs"
    using wf_tree_is_dict is_dict_iff by blast
  have "lookup_path (VDict (AList.update key v kvs)) p = (if p = [key] then Some v else lookup_path d p)"
    if "length p = 1" for p
  proof -
    from that obtain k where "p = [k]" by (cases p) auto
    then show ?thesis using d by (simp add: update_conv')
  qed
  moreover have "wf_tree 1 (VDict (AList.update key v kvs))"
    using "2.prems" d wf_tree_update [of 0 kvs v key] by simp
  ultimately show ?case using d by simp
next
  case (3 d key k2 path v)
  from "3.prems" obtain kvs where d: "d = VDict kvs"
    using wf_tree_is_dict is_dict_iff by blast
  define child where "child = (case map_of kvs key of None \<Rightarrow> VDict [] | Some c \<Rightarrow> c)"
  have wfc: "wf_tree (length (k2 # path)) child"
    using "3.prems"(1) d wf_tree_child [of "length (k2 # path)" kvs key]
    by (auto simp: child_def split: option.splits)
  have "\<exists>d'. set_by_path child (k2 # path) v = Inr d' \<and> wf_tree (length (k2 # path)) d' \<and>
     (\<forall>p. length p = length (k2 # path) \<longrightarrow>
        lookup_path d' p = (if p = k2 # path then Some v else lookup_path child p))"
    unfolding child_def
    by (rule "3.IH" [OF d wfc [unfolded child_def] _ "3.prems"(3)]) simp
  then obtain c' where c': "set_by_path child (k2 # path) v = Inr c'"
      "wf_tree (length (k2 # path)) c'"
      "\<And>p. length p = length (k2 # path) \<Longrightarrow>
         lookup_path c' p = (if p = k2 # path then Some v else lookup_path child p)"
    by auto
  have "lookup_path (VDict (AList.update key c' kvs)) p =
        (if p = key # k2 # path then Some v else lookup_path d p)"
    if len: "length p = length (key # k2 # path)" for p
  proof -
    from len obtain k p' where p: "p = k # p'" "length p' = length (k2 # path)"
      by (cases p) auto
    show ?thesis
    proof (cases "k = key")
      case True
      have "lookup_path child p' = lookup_path d (key # p')"
        using d p(2) by (cases p') (auto simp: child_def split: option.splits)
      then show ?thesis using p True d c'(3) [OF p(2)] by (simp add: update_conv')
    next
      case False
      then show ?thesis using p d by (simp add: update_conv')
    qed
  qed
  moreover have "wf_tree (length (key # k2 # path)) (VDict (AList.update key c' kvs))"
    using "3.prems"(1) d c'(2) wf_tree_update [of "length (k2 # path)" kvs c' key] by simp
  ultimately show ?case using d c'(1) by (simp add: child_def)
qed

lemma key_fields_simps [simp]:
  "key_fields Team = [''team_number'']"
  "key_fields Tim = [''match_number'', ''team_number'']"
  "key_fields Aim = [''match_number'', ''alliance_color_is_red'']"
  "key_fields Alliance = [''alliance_num'']"
  "key_fields Auto_paths = [''team_number'', ''path_number'']"
  by (simp_all add: key_fields_def COLLECTION_KEYS_def)

lemma COLLECTION_KEYS_total: "map_of COLLECTION_KEYS t = Some (key_fields t)"
  by (cases t) (simp_all add: COLLECTION_KEYS_def key_fields_def)

lemma key_fields_props:
  "distinct (key_fields t)" "key_fields t \<noteq> []" "''_id'' \<notin> set (key_fields t)"
  by (cases t; simp)+

lemma make_key_eq: "make_key rp t doc = make_key_loop rp (key_fields t) doc []"
  by (simp add: make_key_def COLLECTION_KEYS_total)

lemma make_key_loop_Cons:
  "make_key_loop rp (h # hs) doc keys =
    (case map_of doc h of
       None \<Rightarrow> Inl (KeyError h)
     | Some v \<Rightarrow> make_key_loop rp hs (AList.delete h doc)
         (keys @ [if h = ''alliance_color_is_red''
                  then (if truthy v then ''red'' else ''blue'') else str_py rp v]))"
  by (cases "h = ''alliance_color_is_red''") (simp_all split: option.splits)

declare make_key_loop.simps(2) [simp del]

lemma delete_filter: "AList.delete h doc = filter (\<lambda>(k, v). k \<noteq> h) doc"
  by (induction doc) (auto simp: AList.delete_eq)

lemma make_key_loop_Inr:
  "make_key_loop rp hs doc keys = Inr (ks, body) \<Longrightarrow>
     body = restrict_out hs doc \<and> length ks = length keys + length hs"
proof (induction hs arbitrary: doc keys)
  case Nil
  then show ?case by (simp add: restrict_out_def)
next
  case (Cons h hs)
  have *: "restrict_out hs (AList.delete h doc) = restrict_out (h # hs) doc"
    by (auto simp: restrict_out_def delete_filter intro: filter_cong)
  from Cons.prems show ?case
    using Cons.IH * by (auto simp: make_key_loop_Cons split: option.splits)
qed

lemma make_key_loop_Inl:
  "make_key_loop rp hs doc keys = Inl e \<Longrightarrow> distinct hs \<Longrightarrow>
     \<exists>h \<in> set hs. e = KeyError h \<and> map_of doc h = None"
proof (induction hs arbitrary: doc keys)
  case Nil
  then show ?case by simp
next
  case (Cons h hs)
  show ?case
  proof (cases "map_of doc h")
    case None
    with Cons.prems show ?thesis by (simp add: make_key_loop_Cons)
  next
    case (Some v)
    with Cons.prems obtain keys' where "make_key_loop rp hs (AList.delete h doc) keys' = Inl e"
      by (auto simp: make_key_loop_Cons)
    from Cons.IH [OF this] Cons.prems(2)
    obtain h' where "h' \<in> set hs" "e = KeyError h'" "map_of (AList.delete h doc) h' = None"
      by auto
    moreover from this Cons.prems(2) have "h' \<noteq> h" by auto
    ultimately show ?thesis by (auto simp: delete_conv')
  qed
qed

lemma make_key_loop_succeeds:
  "set hs \<subseteq> fst ` set doc \<Longrightarrow> distinct hs \<Longrightarrow> \<exists>r. make_key_loop rp hs doc keys = Inr r"
proof (cases "make_key_loop rp hs doc keys")
  case (Inl e)
  assume "set hs \<subseteq> fst ` set doc" "distinct hs"
  with make_key_loop_Inl [OF Inl] show ?thesis
    by (auto simp: map_of_eq_None_iff)
next
  case (Inr r)
  then show ?thesis by blast
qed

lemma make_key_loop_fails:
  "h \<in> set hs \<Longrightarrow> map_of doc h = None \<Longrightarrow> \<exists>e. make_key_loop rp hs doc keys = Inl e"
proof (induction hs arbitrary: doc keys)
  case Nil
  then show ?case by simp
next
  case (Cons h' hs)
  show ?case
  proof (cases "h = h'")
    case True
    with Cons.prems show ?thesis by (simp add: make_key_loop_Cons)
  next
    case False
    with Cons.prems have "h \<in> set hs" "map_of (AList.delete h' doc) h = None"
      by (auto simp: delete_conv')
    from Cons.IH [OF this] show ?thesis
      by (auto simp: make_key_loop_Cons split: option.splits)
  qed
qed

lemma data_inv_lookup:
  assumes "data_inv data"
  obtains tree where "map_of data t = Some tree" "wf_tree (length (key_fields t)) tree"
proof -
  from assms have "t \<in> fst ` set data"
    by (cases t) (simp_all add: data_inv_def COLLECTION_KEYS_def flip: set_map)
  then obtain tree where "map_of data t = Some tree"
    by (cases "map_of data t") (auto simp: map_of_eq_None_iff)
  moreover from this assms have "wf_tree (length (key_fields t)) tree"
    by (auto simp: data_inv_def dest!: map_of_SomeD)
  ultimately show thesis by (rule that)
qed

lemma set_update_subset: "set (AList.update k v al) \<subseteq> insert (k, v) (set al)"
  by (induction al) auto

lemma data_inv_update:
  assumes "data_inv data" "wf_tree (length (key_fields t)) tree"
  shows "data_inv (AList.update t tree data)"
proof -
  from assms(1) have "t \<in> set (map fst data)"
    by (cases t) (simp_all add: data_inv_def COLLECTION_KEYS_def)
  then have "map fst (AList.update t tree data) = map fst data"
    by (simp add: update_keys)
  moreover have "wf_tree (length (key_fields t')) tree'" if "(t', tree') \<in> set (AList.update t tree data)" for t' tree'
    using that assms set_update_subset [of t tree data] by (auto simp: data_inv_def)
  ultimately show ?thesis using assms(1) by (auto simp: data_inv_def)
qed

lemma make_key_length:
  "make_key rp t doc = Inr (key, body) \<Longrightarrow> length key = length (key_fields t) \<and> key \<noteq> []"
  using make_key_loop_Inr [of rp "key_fields t" doc "[]" key body] key_fields_props(2) [of t]
  by (auto simp: make_key_eq)

lemma process_document_spec:
  assumes inv: "data_inv data" and mk: "make_key rp t doc = Inr (key, body)"
  shows "\<exists>data'. process_document rp q c t data doc = Inr data' \<and> data_inv data' \<and>
     leaf data' t key = Some (VDict (AList.updates (map fst (sanitize rp q c body))
         (map snd (sanitize rp q c body)) (leaf_fields data t key))) \<and>
     (\<forall>t' p. (t' \<noteq> t \<or> p \<noteq> key) \<longrightarrow> length p = length (key_fields t') \<longrightarrow>
         leaf data' t' p = leaf data t' p) \<and>
     (\<forall>t'. t' \<noteq> t \<longrightarrow> map_of data' t' = map_of data t')"
proof -
  let ?s = "sanitize rp q c body"
  let ?n = "length (key_fields t)"
  from inv obtain tree where tree: "map_of data t = Some tree" and wf: "wf_tree ?n tree"
    by (rule data_inv_lookup)
  from mk have len: "length key = ?n" and ne: "key \<noteq> []"
    using make_key_length by blast+
  from wf len have wfk: "wf_tree (length key) tree" by simp
  let ?found = "case lookup_path tree key of None \<Rightarrow> VNone | Some v \<Rightarrow> v"
  let ?old = "leaf_fields data t key"
  let ?merged = "VDict (AList.updates (map fst ?s) (map snd ?s) ?old)"
  have get: "get_by_path tree key = Inr ?found"
    using wfk by (rule get_by_path_wf)
  have "\<exists>tree''. (case (if ?found = VNone then set_by_path tree key (VDict []) else Inr tree) of
            Inl e \<Rightarrow> Inl e
          | Inr tree' \<Rightarrow>
             (case dict_update (if ?found = VNone then VDict [] else ?found) ?s of
                Inl e \<Rightarrow> Inl e
              | Inr common_doc \<Rightarrow>
                 (case set_by_path tree' key common_doc of
                    Inl e \<Rightarrow> Inl e
                  | Inr tree'' \<Rightarrow> Inr (AList.update t tree'' data)))) = Inr (AList.update t tree'' data)
        \<and> wf_tree (length key) tree''
        \<and> (\<forall>p. length p = length key \<longrightarrow>
              lookup_path tree'' p = (if p = key then Some ?merged else lookup_path tree p))"
  proof (cases "lookup_path tree key")
    case None
    then have old: "?old = []" using tree by (simp add: leaf_fields_def leaf_def)
    from set_by_path_wf [OF wfk ne, of "VDict []"]
    obtain tree' where t': "set_by_path tree key (VDict []) = Inr tree'" "wf_tree (length key) tree'"
      "\<And>p. length p = length key \<Longrightarrow> lookup_path tree' p = (if p = key then Some (VDict []) else lookup_path tree p)"
      by auto
    from set_by_path_wf [OF t'(2) ne, of ?merged]
    obtain tree'' where t'': "set_by_path tree' key ?merged = Inr tree''" "wf_tree (length key) tree''"
      "\<And>p. length p = length key \<Longrightarrow> lookup_path tree'' p = (if p = key then Some ?merged else lookup_path tree' p)"
      by auto
    have "\<forall>p. length p = length key \<longrightarrow>
              lookup_path tree'' p = (if p = key then Some ?merged else lookup_path tree p)"
      using t'(3) t''(3) by simp
    then show ?thesis using None t'(1) t''(1,2) old by auto
  next
    case (Some v)
    with wfk have "is_dict v" by (rule lookup_path_wf)
    then obtain kvs where v: "v = VDict kvs" by (auto simp: is_dict_iff)
    then have old: "?old = kvs" using tree Some by (simp add: leaf_fields_def leaf_def)
    from set_by_path_wf [OF wfk ne, of ?merged]
    obtain tree'' where t'': "set_by_path tree key ?merged = Inr tree''" "wf_tree (length key) tree''"
      "\<And>p. length p = length key \<Longrightarrow> lookup_path tree'' p = (if p = key then Some ?merged else lookup_path tree p)"
      by auto
    then show ?thesis using Some v old by auto
  qed
  then obtain tree'' where
    run: "process_document rp q c t data doc = Inr (AList.update t tree'' data)"
    and wf'': "wf_tree (length key) tree''"
    and look: "\<And>p. length p = length key \<Longrightarrow>
              lookup_path tree'' p = (if p = key then Some ?merged else lookup_path tree p)"
    using mk tree get by (auto simp: process_document_def)
  let ?data' = "AList.update t tree'' data"
  have "data_inv ?data'"
    using inv wf'' len by (simp add: data_inv_update)
  moreover have "leaf ?data' t key = Some ?merged"
    using look [of key] by (simp add: leaf_def update_conv')
  moreover have "leaf ?data' t' p = leaf data t' p"
    if "t' \<noteq> t \<or> p \<noteq> key" "length p = length (key_fields t')" for t' p
    using that look [of p] len tree by (cases "t' = t") (auto simp: leaf_def update_conv')
  moreover have "map_of ?data' t' = map_of data t'" if "t' \<noteq> t" for t'
    using that by (simp add: update_conv')
  ultimately show ?thesis using run by blast
qed

lemma process_document_Inl:
  "make_key rp t doc = Inl e \<Longrightarrow> process_document rp q c t data doc = Inl e"
  by (simp add: process_document_def)

lemma process_items_append:
  "process_items rp q data (xs @ ys) =
     (case process_items rp q data xs of Inl e \<Rightarrow> Inl e | Inr data' \<Rightarrow> process_items rp q data' ys)"
  by (induction xs arbitrary: data) (auto split: sum.splits)

lemma process_documents_items:
  "process_documents rp q c t data docs = process_items rp q data (map (\<lambda>d. (c, t, d)) docs)"
  by (induction docs arbitrary: data) (auto split: sum.splits)

lemma work_items_Nil [simp]: "work_items q db [] = []"
  by (simp add: work_items_def)

lemma work_items_Cons:
  "work_items q db ((c, t) # colls) =
     (if listed c (ignored_collections q) then [] else map (\<lambda>d. (c, t, d)) (db c)) @ work_items q db colls"
  by (simp add: work_items_def)

lemma work_items_append:
  "work_items q db (xs @ ys) = work_items q db xs @ work_items q db ys"
  by (simp add: work_items_def)

lemma process_collections_items:
  "process_collections rp q db data colls = process_items rp q data (work_items q db colls)"
  by (induction colls arbitrary: data)
     (auto simp: work_items_Cons process_items_append process_documents_items split: sum.splits)

lemma get_viewer_data_items:
  "get_viewer_data rp q db =
     process_items rp q (map (\<lambda>(t, hs). (t, VDict [])) COLLECTION_KEYS) (work_items q db COLLECTIONS)"
  by (simp add: get_viewer_data_def process_collections_items)

lemma data_inv_init: "data_inv (map (\<lambda>(t, hs). (t, VDict [])) COLLECTION_KEYS)"
  by (auto simp: data_inv_def)

lemma map_of_sanitize:
  "map_of (sanitize rp q c body) k =
     (if k = ''_id'' then None else map_option (sanitize_value rp q c k) (map_of body k))"
  by (cases "map_of body k")
     (simp_all add: sanitize_def nan_pass_def to_string_pass_def serialize_viewer_document_def
        sanitize_value_def map_ran_conv delete_conv')

lemma map_of_restrict_out:
  "map_of (restrict_out hs doc) k = (if k \<in> set hs then None else map_of doc k)"
  by (induction doc) (auto simp: restrict_out_def)

lemma make_key_body:
  "make_key rp t d = Inr (key, body) \<Longrightarrow> body = restrict_out (key_fields t) d"
  using make_key_loop_Inr [of rp "key_fields t" d "[]" key body] by (simp add: make_key_eq)

lemma distinct_sanitize:
  "distinct (map fst d) \<Longrightarrow> distinct (map fst (sanitize rp q c (restrict_out hs d)))"
  by (simp add: sanitize_def nan_pass_def to_string_pass_def serialize_viewer_document_def
      distinct_map_ran distinct_delete restrict_out_def distinct_map_filter)

lemma map_of_updates_distinct:
  "distinct (map fst s) \<Longrightarrow>
   map_of (AList.updates (map fst s) (map snd s) old) k =
     (case map_of s k of Some v \<Rightarrow> Some v | None \<Rightarrow> map_of old k)"
proof (induction s arbitrary: old)
  case Nil
  then show ?case by simp
next
  case (Cons p s)
  obtain k' v' where p: "p = (k', v')" by (cases p)
  from Cons.prems p have "map_of s k' = None"
    by (auto simp: map_of_eq_None_iff)
  with Cons p show ?case
    by (auto simp: update_conv' split: option.splits)
qed

lemma map_of_updates_notin:
  "map_of s k = None \<Longrightarrow> map_of (AList.updates (map fst s) (map snd s) old) k = map_of old k"
  by (simp add: map_of_eq_None_iff)

lemma process_items_inv:
  "data_inv data \<Longrightarrow> process_items rp q data items = Inr data' \<Longrightarrow> data_inv data'"
proof (induction items arbitrary: data)
  case Nil
  then show ?case by simp
next
  case (Cons item items)
  obtain c t d where item: "item = (c, t, d)" by (cases item)
  from Cons.prems(2) item obtain data1 where
    d1: "process_document rp q c t data d = Inr data1" and rest: "process_items rp q data1 items = Inr data'"
    by (auto split: sum.splits)
  then obtain key body where mk: "make_key rp t d = Inr (key, body)"
    by (cases "make_key rp t d") (auto simp: process_document_Inl)
  from process_document_spec [OF Cons.prems(1) mk, of q c] d1 have "data_inv data1" by auto
  then show ?case using rest by (rule Cons.IH)
qed

lemma process_document_frame:
  assumes inv: "data_inv data" and run: "process_document rp q c t' data d = Inr data'"
    and len: "length key = length (key_fields t)"
    and nw: "X \<in> insert ''_id'' (set (key_fields t)) \<or> \<not> writes rp t key X (c, t', d)"
  shows "data_inv data' \<and> map_of (leaf_fields data' t key) X = map_of (leaf_fields data t key) X"
proof -
  from run obtain key' body where mk: "make_key rp t' d = Inr (key', body)"
    by (cases "make_key rp t' d") (auto simp: process_document_Inl)
  note spec = process_document_spec [OF inv mk, of q c]
  from spec run have inv': "data_inv data'" by auto
  show ?thesis
  proof (cases "t' = t \<and> key' = key")
    case True
    with nw mk have "X = ''_id'' \<or> X \<in> set (key_fields t') \<or> map_of d X = None"
      by (auto simp: writes_def)
    then have "map_of (sanitize rp q c body) X = None"
      using make_key_body [OF mk] by (auto simp: map_of_sanitize map_of_restrict_out)
    then show ?thesis using spec run True inv'
      by (auto simp: leaf_fields_def map_of_updates_notin)
  next
    case False
    with spec run len have "leaf data' t key = leaf data t key" by auto
    then show ?thesis using inv' by (simp add: leaf_fields_def)
  qed
qed

lemma process_items_frame:
  assumes "data_inv data" "process_items rp q data items = Inr data'"
    "length key = length (key_fields t)"
    "X \<in> insert ''_id'' (set (key_fields t)) \<or> (\<forall>item \<in> set items. \<not> writes rp t key X item)"
  shows "map_of (leaf_fields data' t key) X = map_of (leaf_fields data t key) X"
  using assms
proof (induction items arbitrary: data)
  case Nil
  then show ?case by simp
next
  case (Cons item items)
  obtain c t' d where item: "item = (c, t', d)" by (cases item)
  from Cons.prems(2) item obtain data1 where
    d1: "process_document rp q c t' data d = Inr data1" and rest: "process_items rp q data1 items = Inr data'"
    by (auto split: sum.splits)
  from Cons.prems(4) item
  have nw: "X \<in> insert ''_id'' (set (key_fields t)) \<or> \<not> writes rp t key X (c, t', d)"
    and nw': "X \<in> insert ''_id'' (set (key_fields t)) \<or> (\<forall>item \<in> set items. \<not> writes rp t key X item)"
    by auto
  from process_document_frame [OF Cons.prems(1) d1 Cons.prems(3) nw]
  have inv1: "data_inv data1"
    and eq1: "map_of (leaf_fields data1 t key) X = map_of (leaf_fields data t key) X" by auto
  from Cons.IH [OF inv1 rest Cons.prems(3) nw'] eq1 show ?case by simp
qed

lemma process_items_last_writer:
  assumes inv: "data_inv data"
    and run: "process_items rp q data (pre @ (c, t, d) # post) = Inr data'"
    and mk: "make_key rp t d = Inr (key, body)"
    and dist: "distinct (map fst d)"
    and X: "X \<notin> set (key_fields t)" "X \<noteq> ''_id''"
    and val: "map_of d X = Some v"
    and post: "\<forall>item \<in> set post. \<not> writes rp t key X item"
  shows "map_of (leaf_fields data' t key) X = Some (sanitize_value rp q c X v)"
proof -
  from run obtain data0 where d0: "process_items rp q data pre = Inr data0"
    and run0: "process_items rp q data0 ((c, t, d) # post) = Inr data'"
    by (auto simp: process_items_append split: sum.splits)
  from inv d0 have inv0: "data_inv data0" by (rule process_items_inv)
  from run0 obtain data1 where d1: "process_document rp q c t data0 d = Inr data1"
    and rest: "process_items rp q data1 post = Inr data'"
    by (auto split: sum.splits)
  note spec = process_document_spec [OF inv0 mk, of q c]
  from spec d1 have inv1: "data_inv data1" by auto
  have body: "body = restrict_out (key_fields t) d" using mk by (rule make_key_body)
  have s: "map_of (sanitize rp q c body) X = Some (sanitize_value rp q c X v)"
    using X val body by (simp add: map_of_sanitize map_of_restrict_out)
  have "distinct (map fst (sanitize rp q c body))"
    unfolding body using dist by (rule distinct_sanitize)
  then have "map_of (leaf_fields data1 t key) X = Some (sanitize_value rp q c X v)"
    using spec d1 s by (auto simp: leaf_fields_def map_of_updates_distinct)
  moreover have "length key = length (key_fields t)"
    using mk make_key_length by blast
  ultimately show ?thesis
    using process_items_frame [OF inv1 rest, of key t X] post by simp
qed

lemma sanitize_value_NaN: "sanitize_value rp q c k (VFloat NaN) = VNone"
  by (simp add: sanitize_value_def to_string_value_def nan_value_def)

lemma nan_value_eq: "nan_value v = (if v = VFloat NaN then VNone else v)"
  by (cases v rule: math_isnan.cases) (simp_all add: nan_value_def)

lemma sanitize_value_plain:
  "is_primitive v \<Longrightarrow> v \<noteq> VFloat NaN \<Longrightarrow> sanitize_value rp q c k v = v"
  by (simp add: sanitize_value_def to_string_value_def nan_value_eq)

lemma last_writer_registry:
  assumes run: "get_viewer_data rp q db = Inr data"
    and j: "j < length COLLECTIONS" "COLLECTIONS ! j = (B, t)"
    and act: "\<not> listed B (ignored_collections q)"
    and rec: "db B = before @ doc # after"
    and mk: "make_key rp t doc = Inr (key, body)"
    and dist: "distinct (map fst doc)"
    and X: "X \<notin> set (key_fields t)" "X \<noteq> ''_id''"
    and val: "map_of doc X = Some v"
    and last: "nothing_later_sets rp q db j after t key X"
  shows "\<exists>kvs. leaf data t key = Some (VDict kvs) \<and> map_of kvs X = Some (sanitize_value rp q B X v)"
proof -
  let ?pre = "work_items q db (take j COLLECTIONS) @ map (\<lambda>d. (B, t, d)) before"
  let ?post = "map (\<lambda>d. (B, t, d)) after @ work_items q db (drop (Suc j) COLLECTIONS)"
  have "COLLECTIONS = take j COLLECTIONS @ (B, t) # drop (Suc j) COLLECTIONS"
    using j id_take_nth_drop by metis
  then have "work_items q db COLLECTIONS =
      work_items q db (take j COLLECTIONS) @ work_items q db ((B, t) # drop (Suc j) COLLECTIONS)"
    using work_items_append by metis
  then have split: "work_items q db COLLECTIONS = ?pre @ (B, t, doc) # ?post"
    using act rec by (simp add: work_items_Cons)
  have post: "\<forall>item \<in> set ?post. \<not> writes rp t key X item"
    using last j(2) by (auto simp: nothing_later_sets_def)
  from run split
  have "process_items rp q (map (\<lambda>(t, hs). (t, VDict [])) COLLECTION_KEYS) (?pre @ (B, t, doc) # ?post) = Inr data"
    by (simp add: get_viewer_data_items)
  from process_items_last_writer [OF data_inv_init this mk dist X val post]
  have *: "map_of (leaf_fields data t key) X = Some (sanitize_value rp q B X v)" .
  then obtain kvs where "leaf data t key = Some (VDict kvs)"
    by (auto simp: leaf_fields_def split: option.splits pyval.splits)
  with * show ?thesis by (simp add: leaf_fields_def)
qed

lemma mem_work_items:
  "(c, t, d) \<in> set (work_items q db colls) \<longleftrightarrow>
     (c, t) \<in> set colls \<and> \<not> listed c (ignored_collections q) \<and> d \<in> set (db c)"
  by (induction colls) (auto simp: work_items_Cons split: if_splits)

lemma work_items_cong:
  "(\<forall>(c, t) \<in> set colls. \<not> listed c (ignored_collections q) \<longrightarrow> db c = db' c) \<Longrightarrow>
     work_items q db colls = work_items q db' colls"
  by (induction colls) (auto simp: work_items_Cons)

lemma process_items_Inl:
  "data_inv data \<Longrightarrow> process_items rp q data items = Inl e \<Longrightarrow>
     \<exists>(c, t, d) \<in> set items. make_key rp t d = Inl e"
proof (induction items arbitrary: data)
  case Nil
  then show ?case by simp
next
  case (Cons item items)
  obtain c t d where item: "item = (c, t, d)" by (cases item)
  show ?case
  proof (cases "make_key rp t d")
    case (Inl e')
    with Cons.prems(2) item show ?thesis by (simp add: process_document_Inl)
  next
    case (Inr r)
    then obtain key body where mk: "make_key rp t d = Inr (key, body)" by (cases r) simp
    from process_document_spec [OF Cons.prems(1) mk, of q c]
    obtain data1 where d1: "process_document rp q c t data d = Inr data1" "data_inv data1" by auto
    with Cons.prems(2) item have "process_items rp q data1 items = Inl e" by simp
    from Cons.IH [OF d1(2) this] show ?thesis by auto
  qed
qed

lemma process_items_fails:
  "data_inv data \<Longrightarrow> (c, t, d) \<in> set items \<Longrightarrow> make_key rp t d = Inl e0 \<Longrightarrow>
     \<exists>e. process_items rp q data items = Inl e"
proof (induction items arbitrary: data)
  case Nil
  then show ?case by simp
next
  case (Cons item items)
  obtain c' t' d' where item: "item = (c', t', d')" by (cases item)
  show ?case
  proof (cases "process_document rp q c' t' data d'")
    case (Inl e)
    with item show ?thesis by simp
  next
    case (Inr data1)
    then obtain key body where mk: "make_key rp t' d' = Inr (key, body)"
      by (cases "make_key rp t' d'") (auto simp: process_document_Inl)
    from process_document_spec [OF Cons.prems(1) mk, of q c'] Inr have inv1: "data_inv data1" by auto
    from mk Cons.prems(2,3) item have "(c, t, d) \<in> set items" by auto
    from Cons.IH [OF inv1 this Cons.prems(3)] Inr item show ?thesis by simp
  qed
qed

lemma process_items_other_type:
  "data_inv data \<Longrightarrow> process_items rp q data items = Inr data' \<Longrightarrow>
     \<forall>(c, t', d) \<in> set items. t' \<noteq> t \<Longrightarrow> map_of data' t = map_of data t"
proof (induction items arbitrary: data)
  case Nil
  then show ?case by simp
next
  case (Cons item items)
  obtain c t' d where item: "item = (c, t', d)" by (cases item)
  from Cons.prems(2) item obtain data1 where
    d1: "process_document rp q c t' data d = Inr data1" and rest: "process_items rp q data1 items = Inr data'"
    by (auto split: sum.splits)
  then obtain key body where mk: "make_key rp t' d = Inr (key, body)"
    by (cases "make_key rp t' d") (auto simp: process_document_Inl)
  from Cons.prems(3) item have ne: "t \<noteq> t'" by auto
  from process_document_spec [OF Cons.prems(1) mk, of q c] d1 ne
  have inv1: "data_inv data1" and same: "map_of data1 t = map_of data t" by auto
  from Cons.IH [OF inv1 rest] Cons.prems(3) same show ?case by simp
qed

lemma data_inv_keys: "data_inv data \<Longrightarrow> map fst data = [Team, Tim, Aim, Alliance, Auto_paths]"
  by (simp add: data_inv_def COLLECTION_KEYS_def)

lemma get_viewer_data_inv: "get_viewer_data rp q db = Inr data \<Longrightarrow> data_inv data"
  using process_items_inv [OF data_inv_init] by (simp add: get_viewer_data_items)

section \<open>Merging records of several collections\<close>

text \<open>
  Claim C1, amended. Collection \<open>A\<close> stands before collection \<open>B\<close> in \<^verbatim>\<open>COLLECTIONS\<close>,
  neither is ignored, a record of each has the key path \<open>key\<close> of the same type \<open>t\<close>, and
  both have the field \<open>X\<close>, which is neither a key field of \<open>t\<close> nor \<^verbatim>\<open>_id\<close>, with
  different values \<open>a\<close> and \<open>b\<close>. When no record visited after \<open>B\<close>'s sets \<open>X\<close> at that
  path, the leaf at the path has \<open>X\<close> with \<open>B\<close>'s value as the sanitising passes leave it,
  which is \<open>b\<close> itself for a primitive value other than NaN. The loop visits the
  collections in the order of \<^verbatim>\<open>COLLECTIONS\<close>, and \<^verbatim>\<open>common_doc.update\<close> overwrites the
  fields the leaf already has: the record visited last wins.
\<close>

theorem later_collection_wins:
  assumes run: "get_viewer_data rp q db = Inr data"
    and order: "i < j" "j < length COLLECTIONS" "COLLECTIONS ! i = (A, t)" "COLLECTIONS ! j = (B, t)"
    and active: "\<not> listed A (ignored_collections q)" "\<not> listed B (ignored_collections q)"
    and recA: "docA \<in> set (db A)"
    and recB: "db B = before @ docB # after"
    and keyA: "make_key rp t docA = Inr (key, bodyA)"
    and keyB: "make_key rp t docB = Inr (key, bodyB)"
    and dictB: "distinct (map fst docB)"
    and X: "X \<notin> set (key_fields t)" "X \<noteq> ''_id''"
    and vals: "map_of docA X = Some a" "map_of docB X = Some b" "a \<noteq> b"
    and last: "nothing_later_sets rp q db j after t key X"
  shows "\<exists>kvs. leaf data t key = Some (VDict kvs) \<and>
           map_of kvs X = Some (sanitize_value rp q B X b) \<and>
           (is_primitive b \<and> b \<noteq> VFloat NaN \<longrightarrow> map_of kvs X = Some b)"
  using last_writer_registry [OF run order(2,4) active(2) recB keyB dictB X vals(2) last]
  by (auto simp: sanitize_value_plain)

text \<open>\<^verbatim>\<open>obj_team\<close> (number 3) says 10, \<^verbatim>\<open>tba_team\<close> (number 7) says 12: the leaf says 12.\<close>

theorem later_collection_wins_witness:
  "get_viewer_data example_repr example_query precedence_db = Inr precedence_view \<and>
   COLLECTIONS ! 3 = (''obj_team'', Team) \<and> COLLECTIONS ! 7 = (''tba_team'', Team) \<and>
   (\<exists>kvs. leaf precedence_view Team [''254''] = Some (VDict kvs) \<and>
       map_of kvs ''opr'' = Some (VInt 12))"
proof -
  let ?docA = "[(''_id'', VObjectId ''a1''), (''team_number'', VInt 254), (''opr'', VInt 10)]"
  let ?docB = "[(''_id'', VObjectId ''b2''), (''team_number'', VInt 254), (''opr'', VInt 12)]"
  have run: "get_viewer_data example_repr example_query precedence_db = Inr precedence_view"
    by code_simp
  have order: "(3::nat) < 7" "7 < length COLLECTIONS"
    "COLLECTIONS ! 3 = (''obj_team'', Team)" "COLLECTIONS ! 7 = (''tba_team'', Team)"
    by code_simp+
  have active: "\<not> listed ''obj_team'' (ignored_collections example_query)"
    "\<not> listed ''tba_team'' (ignored_collections example_query)"
    by code_simp+
  have recA: "?docA \<in> set (precedence_db ''obj_team'')" by code_simp
  have recB: "precedence_db ''tba_team'' = [] @ ?docB # []" by code_simp
  have keyA: "make_key example_repr Team ?docA = Inr ([''254''], [(''_id'', VObjectId ''a1''), (''opr'', VInt 10)])"
    by code_simp
  have keyB: "make_key example_repr Team ?docB = Inr ([''254''], [(''_id'', VObjectId ''b2''), (''opr'', VInt 12)])"
    by code_simp
  have dictB: "distinct (map fst ?docB)" by code_simp
  have X: "''opr'' \<notin> set (key_fields Team)" "''opr'' \<noteq> ''_id''" by code_simp+
  have vals: "map_of ?docA ''opr'' = Some (VInt 10)" "map_of ?docB ''opr'' = Some (VInt 12)"
    "VInt 10 \<noteq> VInt 12" by code_simp+
  have last: "nothing_later_sets example_repr example_query precedence_db 7 [] Team [''254''] ''opr''"
    by code_simp
  from later_collection_wins [OF run order active recA recB keyA keyB dictB X vals last]
  show ?thesis using run order(3,4) by auto
qed

text \<open>
  The claim as stated has \<open>B\<close>'s value in the leaf whenever \<open>A\<close> and \<open>B\<close> disagree.
  \<^verbatim>\<open>obj_team\<close> (number 3) says 10 and \<^verbatim>\<open>tba_team\<close> (number 7) says 12 for team 254, but
  \<^verbatim>\<open>picklist\<close>, further down \<^verbatim>\<open>COLLECTIONS\<close>, says 99, and the leaf says 99; the two
  records also differ in \<^verbatim>\<open>_id\<close>, which the leaf does not have. And when \<^verbatim>\<open>tba_team\<close>
  says NaN, the leaf says \<^verbatim>\<open>None\<close>.
\<close>

theorem later_collection_overwritten_counterexample:
  "COLLECTIONS ! 3 = (''obj_team'', Team) \<and> COLLECTIONS ! 7 = (''tba_team'', Team) \<and>
   three_db ''obj_team'' =
     [[(''_id'', VObjectId ''a1''), (''team_number'', VInt 254), (''opr'', VInt 10)]] \<and>
   three_db ''tba_team'' =
     [[(''_id'', VObjectId ''b2''), (''team_number'', VInt 254), (''opr'', VInt 12)]] \<and>
   make_key example_repr Team
     [(''_id'', VObjectId ''a1''), (''team_number'', VInt 254), (''opr'', VInt 10)] =
     Inr ([''254''], [(''_id'', VObjectId ''a1''), (''opr'', VInt 10)]) \<and>
   make_key example_repr Team
     [(''_id'', VObjectId ''b2''), (''team_number'', VInt 254), (''opr'', VInt 12)] =
     Inr ([''254''], [(''_id'', VObjectId ''b2''), (''opr'', VInt 12)]) \<and>
   get_viewer_data example_repr example_query three_db = Inr three_view \<and>
   leaf three_view Team [''254''] = Some (VDict [(''opr'', VInt 99)]) \<and>
   nan_later_db ''obj_team'' =
     [[(''_id'', VObjectId ''a1''), (''team_number'', VInt 254), (''opr'', VInt 10)]] \<and>
   nan_later_db ''tba_team'' =
     [[(''_id'', VObjectId ''b2''), (''team_number'', VInt 254), (''opr'', VFloat NaN)]] \<and>
   get_viewer_data example_repr example_query nan_later_db = Inr nan_later_view \<and>
   leaf nan_later_view Team [''254''] = Some (VDict [(''opr'', VNone)])"
  by code_simp

text \<open>
  Claim C2, amended. A record of collection \<open>A\<close> has the field \<open>X\<close>, a record of a later
  collection \<open>B\<close> with the same key path has the field \<open>Y\<close> and not \<open>X\<close>; neither field
  is a key field of the type or \<^verbatim>\<open>_id\<close>. When no record visited after \<open>A\<close>'s sets \<open>X\<close>
  at that path and none visited after \<open>B\<close>'s sets \<open>Y\<close>, the leaf has both: \<open>X\<close> with
  \<open>A\<close>'s value and \<open>Y\<close> with \<open>B\<close>'s, each as the sanitising passes leave it, which is
  the value itself for a primitive value other than NaN. The merge is a union of the
  fields; a field that only the earlier record has is kept.
\<close>

theorem field_union:
  assumes run: "get_viewer_data rp q db = Inr data"
    and order: "i < j" "j < length COLLECTIONS" "COLLECTIONS ! i = (A, t)" "COLLECTIONS ! j = (B, t)"
    and active: "\<not> listed A (ignored_collections q)" "\<not> listed B (ignored_collections q)"
    and recA: "db A = beforeA @ docA # afterA"
    and recB: "db B = beforeB @ docB # afterB"
    and keyA: "make_key rp t docA = Inr (key, bodyA)"
    and keyB: "make_key rp t docB = Inr (key, bodyB)"
    and dicts: "distinct (map fst docA)" "distinct (map fst docB)"
    and X: "X \<notin> set (key_fields t)" "X \<noteq> ''_id''"
    and Y: "Y \<notin> set (key_fields t)" "Y \<noteq> ''_id''"
    and vals: "map_of docA X = Some a" "map_of docB X = None" "map_of docB Y = Some b"
    and lastX: "nothing_later_sets rp q db i afterA t key X"
    and lastY: "nothing_later_sets rp q db j afterB t key Y"
  shows "\<exists>kvs. leaf data t key = Some (VDict kvs) \<and>
           map_of kvs X = Some (sanitize_value rp q A X a) \<and>
           map_of kvs Y = Some (sanitize_value rp q B Y b) \<and>
           (is_primitive a \<and> a \<noteq> VFloat NaN \<longrightarrow> map_of kvs X = Some a) \<and>
           (is_primitive b \<and> b \<noteq> VFloat NaN \<longrightarrow> map_of kvs Y = Some b)"
proof -
  from order have i: "i < length COLLECTIONS" by simp
  from last_writer_registry [OF run i order(3) active(1) recA keyA dicts(1) X vals(1) lastX]
  obtain kvs where "leaf data t key = Some (VDict kvs)"
    "map_of kvs X = Some (sanitize_value rp q A X a)" by auto
  moreover
  from last_writer_registry [OF run order(2,4) active(2) recB keyB dicts(2) Y vals(3) lastY]
  obtain kvs' where "leaf data t key = Some (VDict kvs')"
    "map_of kvs' Y = Some (sanitize_value rp q B Y b)" by auto
  ultimately show ?thesis by (auto simp: sanitize_value_plain)
qed

text \<open>
  The scenario of the specification: the build gives
  \<^verbatim>\<open>result["team"]["254"] == {"opr": 10, "name": "Cheesy"}\<close>.
\<close>

theorem field_union_witness:
  "get_viewer_data example_repr example_query example_db = Inr example_view \<and>
   leaf example_view Team [''254''] = Some (VDict [(''opr'', VInt 10), (''name'', VStr ''Cheesy'')]) \<and>
   (\<exists>kvs. leaf example_view Team [''254''] = Some (VDict kvs) \<and>
       map_of kvs ''opr'' = Some (VInt 10) \<and> map_of kvs ''name'' = Some (VStr ''Cheesy''))"
proof -
  let ?docA = "[(''_id'', VObjectId ''a1''), (''team_number'', VInt 254), (''opr'', VInt 10)]"
  let ?docB = "[(''_id'', VObjectId ''b2''), (''team_number'', VInt 254), (''name'', VStr ''Cheesy'')]"
  have run: "get_viewer_data example_repr example_query example_db = Inr example_view"
    by code_simp
  have order: "(3::nat) < 7" "7 < length COLLECTIONS"
    "COLLECTIONS ! 3 = (''obj_team'', Team)" "COLLECTIONS ! 7 = (''tba_team'', Team)"
    by code_simp+
  have active: "\<not> listed ''obj_team'' (ignored_collections example_query)"
    "\<not> listed ''tba_team'' (ignored_collections example_query)"
    by code_simp+
  have recA: "example_db ''obj_team'' = [] @ ?docA # []" by code_simp
  have recB: "example_db ''tba_team'' = [] @ ?docB # []" by code_simp
  have keyA: "make_key example_repr Team ?docA = Inr ([''254''], [(''_id'', VObjectId ''a1''), (''opr'', VInt 10)])"
    by code_simp
  have keyB: "make_key example_repr Team ?docB = Inr ([''254''], [(''_id'', VObjectId ''b2''), (''name'', VStr ''Cheesy'')])"
    by code_simp
  have dicts: "distinct (map fst ?docA)" "distinct (map fst ?docB)" by code_simp+
  have X: "''opr'' \<notin> set (key_fields Team)" "''opr'' \<noteq> ''_id''" by code_simp+
  have Y: "''name'' \<notin> set (key_fields Team)" "''name'' \<noteq> ''_id''" by code_simp+
  have vals: "map_of ?docA ''opr'' = Some (VInt 10)" "map_of ?docB ''opr'' = None"
    "map_of ?docB ''name'' = Some (VStr ''Cheesy'')" by code_simp+
  have lastX: "nothing_later_sets example_repr example_query example_db 3 [] Team [''254''] ''opr''"
    by code_simp
  have lastY: "nothing_later_sets example_repr example_query example_db 7 [] Team [''254''] ''name''"
    by code_simp
  have sv: "sanitize_value example_repr example_query ''obj_team'' ''opr'' (VInt 10) = VInt 10"
    "sanitize_value example_repr example_query ''tba_team'' ''name'' (VStr ''Cheesy'') = VStr ''Cheesy''"
    by code_simp+
  have lf: "leaf example_view Team [''254''] = Some (VDict [(''opr'', VInt 10), (''name'', VStr ''Cheesy'')])"
    by code_simp
  from field_union [OF run order active recA recB keyA keyB dicts X Y vals lastX lastY]
  show ?thesis using run lf unfolding sv by simp
qed

text \<open>
  The claim as stated has \<open>A\<close>'s value of \<open>X\<close> in the leaf whenever \<open>B\<close> sets \<open>Y\<close> only.
  In the scenario with a third record, \<^verbatim>\<open>obj_team\<close> says \<^verbatim>\<open>opr\<close> is 10 and
  \<^verbatim>\<open>tba_team\<close> sets the name only, but \<^verbatim>\<open>picklist\<close> says 99 later, and the leaf says
  99. And when \<^verbatim>\<open>obj_team\<close> says NaN, the leaf says \<^verbatim>\<open>None\<close>.
\<close>

theorem field_union_overwritten_counterexample:
  "COLLECTIONS ! 3 = (''obj_team'', Team) \<and> COLLECTIONS ! 7 = (''tba_team'', Team) \<and>
   union_three_db ''obj_team'' =
     [[(''_id'', VObjectId ''a1''), (''team_number'', VInt 254), (''opr'', VInt 10)]] \<and>
   union_three_db ''tba_team'' =
     [[(''_id'', VObjectId ''b2''), (''team_number'', VInt 254), (''name'', VStr ''Cheesy'')]] \<and>
   make_key example_repr Team
     [(''_id'', VObjectId ''a1''), (''team_number'', VInt 254), (''opr'', VInt 10)] =
     Inr ([''254''], [(''_id'', VObjectId ''a1''), (''opr'', VInt 10)]) \<and>
   make_key example_repr Team
     [(''_id'', VObjectId ''b2''), (''team_number'', VInt 254), (''name'', VStr ''Cheesy'')] =
     Inr ([''254''], [(''_id'', VObjectId ''b2''), (''name'', VStr ''Cheesy'')]) \<and>
   get_viewer_data example_repr example_query union_three_db = Inr union_three_view \<and>
   leaf union_three_view Team [''254''] =
     Some (VDict [(''opr'', VInt 99), (''name'', VStr ''Cheesy'')]) \<and>
   nan_earlier_db ''obj_team'' =
     [[(''_id'', VObjectId ''a1''), (''team_number'', VInt 254), (''opr'', VFloat NaN)]] \<and>
   nan_earlier_db ''tba_team'' =
     [[(''_id'', VObjectId ''b2''), (''team_number'', VInt 254), (''name'', VStr ''Cheesy'')]] \<and>
   get_viewer_data example_repr example_query nan_earlier_db = Inr nan_earlier_view \<and>
   leaf nan_earlier_view Team [''254''] =
     Some (VDict [(''opr'', VNone), (''name'', VStr ''Cheesy'')])"
  by code_simp

section \<open>Sanitising\<close>

text \<open>
  Claim C4, amended. A field whose value is NaN is \<^verbatim>\<open>None\<close> in the sanitised document,
  and in the leaf of the result when no later record sets the field there, whatever
  \<^verbatim>\<open>use_strings\<close> and the exclusion lists are; the replacement is the last pass, after
  the one that makes strings. The test is \<^verbatim>\<open>math.isnan\<close>: an infinite value is not
  replaced.
\<close>

theorem nan_becomes_null:
  assumes run: "get_viewer_data rp q db = Inr data"
    and j: "j < length COLLECTIONS" "COLLECTIONS ! j = (c, t)"
    and active: "\<not> listed c (ignored_collections q)"
    and recd: "db c = before @ doc # after"
    and key: "make_key rp t doc = Inr (key, body)"
    and dict: "distinct (map fst doc)"
    and X: "X \<notin> set (key_fields t)" "X \<noteq> ''_id''"
    and val: "map_of doc X = Some (VFloat NaN)"
    and last: "nothing_later_sets rp q db j after t key X"
  shows "(\<exists>kvs. leaf data t key = Some (VDict kvs) \<and> map_of kvs X = Some VNone) \<and>
         sanitize rp q c body = nan_pass (to_string_pass rp q c (serialize_viewer_document body)) \<and>
         map_of (sanitize rp q c body) X = Some VNone \<and>
         sanitize_value rp q' c' k' (VFloat PosInf) = VFloat PosInf \<and>
         sanitize_value rp q' c' k' (VFloat NegInf) = VFloat NegInf"
proof -
  have "body = restrict_out (key_fields t) doc" using key by (rule make_key_body)
  then have "map_of (sanitize rp q c body) X = Some VNone"
    using X val by (simp add: map_of_sanitize map_of_restrict_out sanitize_value_NaN)
  then show ?thesis
    using last_writer_registry [OF run j active recd key dict X val last]
    by (simp add: sanitize_value_NaN sanitize_value_plain sanitize_def)
qed

text \<open>With \<^verbatim>\<open>use_strings\<close> set, a NaN field is \<^verbatim>\<open>None\<close> in the leaf.\<close>

theorem nan_becomes_null_witness:
  "get_viewer_data example_repr strings_query nan_db = Inr nan_view \<and>
   (\<exists>kvs. leaf nan_view Team [''254''] = Some (VDict kvs) \<and> map_of kvs ''opr'' = Some VNone)"
proof -
  let ?doc = "[(''_id'', VObjectId ''a1''), (''team_number'', VInt 254), (''opr'', VFloat NaN)]"
  have run: "get_viewer_data example_repr strings_query nan_db = Inr nan_view"
    by code_simp
  have j: "3 < length COLLECTIONS" "COLLECTIONS ! 3 = (''obj_team'', Team)" by code_simp+
  have active: "\<not> listed ''obj_team'' (ignored_collections strings_query)" by code_simp
  have recd: "nan_db ''obj_team'' = [] @ ?doc # []" by code_simp
  have key: "make_key example_repr Team ?doc = Inr ([''254''], [(''_id'', VObjectId ''a1''), (''opr'', VFloat NaN)])"
    by code_simp
  have dict: "distinct (map fst ?doc)" by code_simp
  have X: "''opr'' \<notin> set (key_fields Team)" "''opr'' \<noteq> ''_id''" by code_simp+
  have val: "map_of ?doc ''opr'' = Some (VFloat NaN)" by code_simp
  have last: "nothing_later_sets example_repr strings_query nan_db 3 [] Team [''254''] ''opr''"
    by code_simp
  from nan_becomes_null [OF run j active recd key dict X val last]
  show ?thesis using run by simp
qed

text \<open>
  The claim as stated counts the infinities among the values replaced. A record whose
  field is positive infinity keeps it in the leaf.
\<close>

theorem infinity_kept_counterexample:
  "get_viewer_data example_repr example_query infinity_db = Inr infinity_view \<and>
   leaf infinity_view Team [''254''] = Some (VDict [(''opr'', VFloat PosInf)])"
  by code_simp

text \<open>
  Claim C6. For a field \<open>k\<close> of a document of collection \<open>c\<close> with the stored value \<open>v\<close>:
  with \<^verbatim>\<open>use_strings\<close> set, a value that is not a primitive becomes its string, unless
  \<open>k\<close> is in \<^verbatim>\<open>ignored_to_string_datapoints\<close> or \<open>c\<close> is in
  \<^verbatim>\<open>ignored_to_string_collections\<close>, and then it is kept as it is; a primitive value
  is never made a string (only NaN is replaced, by \<^verbatim>\<open>None\<close>); and without
  \<^verbatim>\<open>use_strings\<close> no value is made a string.
\<close>

theorem selective_stringification:
  assumes "k \<noteq> ''_id''" and "map_of doc k = Some v"
  shows "(use_strings q \<and> \<not> is_primitive v \<and> \<not> listed k (ignored_to_string_datapoints q) \<and>
            \<not> listed c (ignored_to_string_collections q) \<longrightarrow>
            map_of (sanitize rp q c doc) k = Some (VStr (str_py rp v))) \<and>
         (\<not> is_primitive v \<and> (listed k (ignored_to_string_datapoints q) \<or>
            listed c (ignored_to_string_collections q)) \<longrightarrow>
            map_of (sanitize rp q c doc) k = Some v) \<and>
         (is_primitive v \<longrightarrow>
            map_of (sanitize rp q c doc) k = Some (if v = VFloat NaN then VNone else v)) \<and>
         (\<not> use_strings q \<longrightarrow>
            map_of (sanitize rp q c doc) k = Some (if v = VFloat NaN then VNone else v))"
  using assms
  by (auto simp: map_of_sanitize sanitize_value_def to_string_value_def nan_value_eq)

text \<open>
  With \<^verbatim>\<open>use_strings\<close> set and \<^verbatim>\<open>raw\<close> excluded: the list \<^verbatim>\<open>path\<close> becomes a string,
  the list \<^verbatim>\<open>raw\<close> and the integer \<^verbatim>\<open>score\<close> stay.
\<close>

theorem selective_stringification_witness:
  "map_of (sanitize example_repr strings_query ''obj_tim''
      [(''_id'', VObjectId ''c3''), (''path'', VList [VInt 1, VInt 2]), (''raw'', VList [VInt 3]), (''score'', VInt 7)])
      ''path'' = Some (VStr ''<object>'') \<and>
   map_of (sanitize example_repr strings_query ''obj_tim''
      [(''_id'', VObjectId ''c3''), (''path'', VList [VInt 1, VInt 2]), (''raw'', VList [VInt 3]), (''score'', VInt 7)])
      ''raw'' = Some (VList [VInt 3]) \<and>
   map_of (sanitize example_repr strings_query ''obj_tim''
      [(''_id'', VObjectId ''c3''), (''path'', VList [VInt 1, VInt 2]), (''raw'', VList [VInt 3]), (''score'', VInt 7)])
      ''score'' = Some (VInt 7)"
proof -
  let ?doc = "[(''_id'', VObjectId ''c3''), (''path'', VList [VInt 1, VInt 2]), (''raw'', VList [VInt 3]), (''score'', VInt 7)]"
  have k: "''path'' \<noteq> ''_id''" "''raw'' \<noteq> ''_id''" "''score'' \<noteq> ''_id''" by simp_all
  have v: "map_of ?doc ''path'' = Some (VList [VInt 1, VInt 2])"
    "map_of ?doc ''raw'' = Some (VList [VInt 3])" "map_of ?doc ''score'' = Some (VInt 7)" by simp_all
  have c: "use_strings strings_query" "listed ''raw'' (ignored_to_string_datapoints strings_query)"
    "\<not> listed ''path'' (ignored_to_string_datapoints strings_query)"
    "\<not> listed ''obj_tim'' (ignored_to_string_collections strings_query)"
    by (simp_all add: strings_query_def)
  from selective_stringification [OF k(1) v(1), where q=strings_query and c="''obj_tim''" and rp=example_repr]
    selective_stringification [OF k(2) v(2), where q=strings_query and c="''obj_tim''" and rp=example_repr]
    selective_stringification [OF k(3) v(3), where q=strings_query and c="''obj_tim''" and rp=example_repr]
  show ?thesis using c by (simp add: example_repr_def)
qed

section \<open>Key extraction of aim records\<close>

text \<open>
  Claim C10. For an aim record, \<open>make_key\<close> turns the field
  \<^verbatim>\<open>alliance_color_is_red\<close> into a key component by its truth value, whatever its
  type: a truthy value gives \<^verbatim>\<open>"red"\<close>, a falsy one \<^verbatim>\<open>"blue"\<close>. So the key of an aim
  record that has both key fields is the rendered match number followed by
  \<^verbatim>\<open>"red"\<close> or \<^verbatim>\<open>"blue"\<close>, and the document is left without its two key fields.
\<close>

theorem make_key_aim_color:
  assumes "map_of doc ''match_number'' = Some m"
    and "map_of doc ''alliance_color_is_red'' = Some v"
  shows "make_key rp Aim doc =
           Inr ([str_py rp m, if truthy v then ''red'' else ''blue''],
                restrict_out [''match_number'', ''alliance_color_is_red''] doc)"
proof -
  have "restrict_out [''match_number'', ''alliance_color_is_red''] doc =
        AList.delete ''alliance_color_is_red'' (AList.delete ''match_number'' doc)"
    by (induction doc) (auto simp: restrict_out_def)
  then show ?thesis using assms
    by (simp add: make_key_eq make_key_loop_Cons delete_conv')
qed

text \<open>
  The integer 1 is truthy and gives red; the empty string is falsy and gives blue.
\<close>

theorem make_key_aim_color_witness:
  "make_key example_repr Aim
     [(''_id'', VObjectId ''65f0''), (''match_number'', VInt 12),
      (''alliance_color_is_red'', VInt 1), (''score'', VInt 30)] =
     Inr ([''12'', ''red''], [(''_id'', VObjectId ''65f0''), (''score'', VInt 30)])
   \<and> make_key example_repr Aim
     [(''match_number'', VStr ''q3''), (''alliance_color_is_red'', VStr [])] =
     Inr ([''q3'', ''blue''], [])"
  using make_key_aim_color [of "[(''_id'', VObjectId ''65f0''), (''match_number'', VInt 12),
      (''alliance_color_is_red'', VInt 1), (''score'', VInt 30)]" "VInt 12" "VInt 1" example_repr]
    make_key_aim_color [of "[(''match_number'', VStr ''q3''), (''alliance_color_is_red'', VStr [])]"
      "VStr ''q3''" "VStr []" example_repr]
  by (simp add: restrict_out_def str_int_def str_nat.simps digit_chars_def)

section \<open>The shape of the result\<close>

text \<open>
  Claim C3. In the result of a successful build, every leaf of the tree of a document
  type \<open>t\<close> (the value at a path as long as the list of key fields that
  \<^verbatim>\<open>COLLECTION_KEYS\<close> declares for \<open>t\<close>) is a dictionary that has none of these key
  fields and no \<^verbatim>\<open>_id\<close>.
\<close>

theorem no_key_leakage:
  assumes run: "get_viewer_data rp q db = Inr data"
    and headers: "map_of COLLECTION_KEYS t = Some headers"
    and path: "length path = length headers"
    and lf: "leaf data t path = Some leaf_doc"
    and h: "h \<in> insert ''_id'' (set headers)"
  shows "\<exists>kvs. leaf_doc = VDict kvs \<and> h \<notin> fst ` set kvs"
proof -
  let ?init = "map (\<lambda>(t, hs). (t, VDict [])) COLLECTION_KEYS"
  from headers have hs: "headers = key_fields t" by (simp add: COLLECTION_KEYS_total)
  from run have inv: "data_inv data" by (rule get_viewer_data_inv)
  from inv obtain tree where tree: "map_of data t = Some tree" "wf_tree (length (key_fields t)) tree"
    by (rule data_inv_lookup)
  with lf have look: "lookup_path tree path = Some leaf_doc" by (simp add: leaf_def)
  from tree(2) path hs have "wf_tree (length path) tree" by simp
  then have "is_dict leaf_doc" using look by (rule lookup_path_wf)
  then obtain kvs where kvs: "leaf_doc = VDict kvs" by (auto simp: is_dict_iff)
  from run have items: "process_items rp q ?init (work_items q db COLLECTIONS) = Inr data"
    by (simp add: get_viewer_data_items)
  have "path \<noteq> []" using path hs key_fields_props(2) [of t] by auto
  then have "lookup_path (VDict []) path = None" by (cases path) simp_all
  moreover have "map_of ?init t = Some (VDict [])"
    by (cases t) (simp_all add: COLLECTION_KEYS_def)
  ultimately have "leaf_fields ?init t path = []" by (simp add: leaf_fields_def leaf_def)
  with process_items_frame [OF data_inv_init items, of path t h] path hs h
  have "map_of (leaf_fields data t path) h = None" by auto
  with lf kvs have "map_of kvs h = None" by (simp add: leaf_fields_def)
  then show ?thesis using kvs by (simp add: map_of_eq_None_iff)
qed

text \<open>The leaf of team 254 in the scenario has neither \<^verbatim>\<open>team_number\<close> nor \<^verbatim>\<open>_id\<close>.\<close>

theorem no_key_leakage_witness:
  "get_viewer_data example_repr example_query example_db = Inr example_view \<and>
   leaf example_view Team [''254''] = Some (VDict [(''opr'', VInt 10), (''name'', VStr ''Cheesy'')]) \<and>
   ''team_number'' \<notin> fst ` set [(''opr'', VInt 10), (''name'', VStr ''Cheesy'')] \<and>
   ''_id'' \<notin> fst ` set [(''opr'', VInt 10), (''name'', VStr ''Cheesy'')]"
proof -
  have run: "get_viewer_data example_repr example_query example_db = Inr example_view"
    by code_simp
  have headers: "map_of COLLECTION_KEYS Team = Some [''team_number'']" by code_simp
  have path: "length [''254''] = length [''team_number'']" by simp
  have lf: "leaf example_view Team [''254''] = Some (VDict [(''opr'', VInt 10), (''name'', VStr ''Cheesy'')])"
    by code_simp
  have h: "''team_number'' \<in> insert ''_id'' (set [''team_number''])"
    "''_id'' \<in> insert ''_id'' (set [''team_number''])" by simp_all
  from no_key_leakage [OF run headers path lf h(1)] no_key_leakage [OF run headers path lf h(2)]
  show ?thesis using run lf by simp
qed

text \<open>
  Claim C8. The result of a successful build has an entry for each of the five document
  types, in the order of \<^verbatim>\<open>COLLECTION_KEYS\<close>, and the entry of a type is the empty
  dictionary when every collection of that type is ignored or has no document.
\<close>

theorem every_type_present:
  assumes run: "get_viewer_data rp q db = Inr data"
  shows "map fst data = [Team, Tim, Aim, Alliance, Auto_paths] \<and>
         ((\<forall>(c, t') \<in> set COLLECTIONS. t' = t \<longrightarrow> listed c (ignored_collections q) \<or> db c = []) \<longrightarrow>
            map_of data t = Some (VDict []))"
proof -
  let ?init = "map (\<lambda>(t, hs). (t, VDict [])) COLLECTION_KEYS"
  from run have items: "process_items rp q ?init (work_items q db COLLECTIONS) = Inr data"
    by (simp add: get_viewer_data_items)
  have init: "map_of ?init t = Some (VDict [])"
    by (cases t) (simp_all add: COLLECTION_KEYS_def)
  have "map_of data t = Some (VDict [])"
    if none: "\<forall>(c, t') \<in> set COLLECTIONS. t' = t \<longrightarrow> listed c (ignored_collections q) \<or> db c = []"
  proof -
    have "\<forall>(c, t', d) \<in> set (work_items q db COLLECTIONS). t' \<noteq> t"
      using none by (auto simp: mem_work_items)
    from process_items_other_type [OF data_inv_init items this] init show ?thesis by simp
  qed
  then show ?thesis using get_viewer_data_inv [OF run] data_inv_keys by blast
qed

text \<open>The scenario has team records only: the entry of \<^verbatim>\<open>tim\<close> is there, and empty.\<close>

theorem every_type_present_witness:
  "get_viewer_data example_repr example_query example_db = Inr example_view \<and>
   map fst example_view = [Team, Tim, Aim, Alliance, Auto_paths] \<and>
   map_of example_view Tim = Some (VDict [])"
proof -
  have run: "get_viewer_data example_repr example_query example_db = Inr example_view"
    by code_simp
  have "\<forall>(c, t') \<in> set COLLECTIONS. t' = Tim \<longrightarrow>
      listed c (ignored_collections example_query) \<or> example_db c = []"
    by (simp add: COLLECTIONS_def example_db_def)
  with every_type_present [OF run, of Tim] show ?thesis using run by simp
qed

section \<open>What the build reads\<close>

text \<open>
  Claim C7. A collection listed in \<^verbatim>\<open>ignored_collections\<close> is skipped before its
  documents are fetched: two databases that agree on every collection that is not ignored
  give the same result, so whatever the ignored collections hold adds nothing to any
  leaf, while the other collections of the same type are merged as usual.
\<close>

theorem ignored_collections_contribute_nothing:
  assumes "\<forall>c. \<not> listed c (ignored_collections q) \<longrightarrow> db c = db' c"
  shows "get_viewer_data rp q db = get_viewer_data rp q db'"
  using assms work_items_cong [of COLLECTIONS q db db']
  by (simp add: get_viewer_data_items case_prod_beta)

text \<open>
  With \<^verbatim>\<open>tba_team\<close> ignored, the scenario gives the view built from \<^verbatim>\<open>obj_team\<close>
  alone: the name that \<^verbatim>\<open>tba_team\<close> holds is not in the leaf.
\<close>

theorem ignored_collections_contribute_nothing_witness:
  "listed ''tba_team'' (ignored_collections ignoring_query) \<and>
   example_db ''tba_team'' \<noteq> obj_only_db ''tba_team'' \<and>
   get_viewer_data example_repr ignoring_query example_db =
     get_viewer_data example_repr ignoring_query obj_only_db \<and>
   get_viewer_data example_repr ignoring_query example_db = Inr obj_only_view"
proof -
  have "\<forall>c. \<not> listed c (ignored_collections ignoring_query) \<longrightarrow> example_db c = obj_only_db c"
    by (simp add: ignoring_query_def example_db_def obj_only_db_def)
  from ignored_collections_contribute_nothing [OF this, of example_repr]
  have "get_viewer_data example_repr ignoring_query example_db =
     get_viewer_data example_repr ignoring_query obj_only_db" .
  moreover have "get_viewer_data example_repr ignoring_query example_db = Inr obj_only_view"
    by code_simp
  moreover have "listed ''tba_team'' (ignored_collections ignoring_query)"
    "example_db ''tba_team'' \<noteq> obj_only_db ''tba_team''"
    by code_simp+
  ultimately show ?thesis by simp
qed

section \<open>A record without a key field\<close>

text \<open>
  Claim C5, amended. When a document of a collection that is not ignored lacks a key
  field of its type, the build fails, and returns no view: the error is the
  \<^verbatim>\<open>KeyError\<close> that \<^verbatim>\<open>document[header]\<close> raises for a fetched record that lacks the key
  field \<open>header\<close>, and it carries that field name only.
\<close>

theorem missing_key_field_fails:
  assumes "(c, t) \<in> set COLLECTIONS" and "\<not> listed c (ignored_collections q)"
    and "d \<in> set (db c)" and "h \<in> set (key_fields t)" and "map_of d h = None"
  shows "\<exists>c' t' d' h'. (c', t') \<in> set COLLECTIONS \<and> \<not> listed c' (ignored_collections q) \<and>
           d' \<in> set (db c') \<and> h' \<in> set (key_fields t') \<and> map_of d' h' = None \<and>
           get_viewer_data rp q db = Inl (KeyError h')"
proof -
  let ?init = "map (\<lambda>(t, hs). (t, VDict [])) COLLECTION_KEYS"
  from assms(4,5) obtain e0 where "make_key rp t d = Inl e0"
    using make_key_loop_fails [of h "key_fields t" d rp "[]"] by (auto simp: make_key_eq)
  moreover from assms(1-3) have "(c, t, d) \<in> set (work_items q db COLLECTIONS)"
    by (simp add: mem_work_items)
  ultimately obtain e where e: "process_items rp q ?init (work_items q db COLLECTIONS) = Inl e"
    using process_items_fails [OF data_inv_init] by blast
  from process_items_Inl [OF data_inv_init e]
  obtain c' t' d' where item: "(c', t', d') \<in> set (work_items q db COLLECTIONS)"
    and mk: "make_key rp t' d' = Inl e" by auto
  from mk obtain h' where "h' \<in> set (key_fields t')" "e = KeyError h'" "map_of d' h' = None"
    using make_key_loop_Inl [of rp "key_fields t'" d' "[]" e] key_fields_props(1) [of t']
    by (auto simp: make_key_eq)
  with item e show ?thesis
    by (auto simp: mem_work_items get_viewer_data_items)
qed

text \<open>A team record without \<^verbatim>\<open>team_number\<close>.\<close>

theorem missing_key_field_fails_witness:
  "(''obj_team'', Team) \<in> set COLLECTIONS \<and> map_of [(''_id'', VObjectId ''a1''), (''opr'', VInt 10)] ''team_number'' = None \<and>
   (\<exists>c' t' d' h'. (c', t') \<in> set COLLECTIONS \<and> \<not> listed c' (ignored_collections example_query) \<and>
           d' \<in> set (missing_team_db c') \<and> h' \<in> set (key_fields t') \<and> map_of d' h' = None \<and>
           get_viewer_data example_repr example_query missing_team_db = Inl (KeyError h'))"
proof -
  let ?d = "[(''_id'', VObjectId ''a1''), (''opr'', VInt 10)]"
  have a: "(''obj_team'', Team) \<in> set COLLECTIONS" by code_simp
  have b: "\<not> listed ''obj_team'' (ignored_collections example_query)" by code_simp
  have c: "?d \<in> set (missing_team_db ''obj_team'')" by code_simp
  have d: "''team_number'' \<in> set (key_fields Team)" by simp
  have e: "map_of ?d ''team_number'' = None" by simp
  from missing_key_field_fails [where c="''obj_team''" and t=Team and d="?d" and h="''team_number''"
      and q=example_query and db=missing_team_db and rp=example_repr, OF a b c d e]
  show ?thesis using a e by simp
qed

text \<open>
  The claim as stated has the error name the document type and the record's \<^verbatim>\<open>_id\<close>.
  A team record with one \<^verbatim>\<open>_id\<close> and an auto path record with another, both without
  \<^verbatim>\<open>team_number\<close>, fail with the same error.
\<close>

theorem key_error_names_field_only_counterexample:
  "get_viewer_data example_repr example_query missing_team_db = Inl (KeyError ''team_number'') \<and>
   get_viewer_data example_repr example_query missing_path_db = Inl (KeyError ''team_number'')"
  by code_simp

end
